theory Spec2Isabelle
  imports Complex_Main
begin

section \<open>JavaScript numbers\<close>

text \<open>
  The deque of \<^verbatim>\<open>data-oriented-slim-deque.ts\<close> takes its two constructor arguments as
  values of the type \<^verbatim>\<open>number\<close>, the binary64 floating-point numbers. A finite number
  is \<open>Finite r\<close> with \<open>r\<close> the real number it denotes (the two zeros are not told
  apart); the three non-finite values are constructors of their own, because the
  comparisons of the constructor treat them specially: every ordering comparison with
  \<^verbatim>\<open>NaN\<close> is false.
\<close>

datatype number = Finite real | NaN | PosInfinity | NegInfinity

text \<open>\<^verbatim>\<open>a < b\<close>\<close>

fun js_lt :: "number \<Rightarrow> number \<Rightarrow> bool" where
  "js_lt (Finite a) (Finite b) = (a < b)"
| "js_lt NaN _ = False"
| "js_lt _ NaN = False"
| "js_lt PosInfinity _ = False"
| "js_lt _ NegInfinity = False"
| "js_lt NegInfinity _ = True"
| "js_lt _ PosInfinity = True"

text \<open>\<^verbatim>\<open>a === b\<close>\<close>

fun js_eq :: "number \<Rightarrow> number \<Rightarrow> bool" where
  "js_eq (Finite a) (Finite b) = (a = b)"
| "js_eq PosInfinity PosInfinity = True"
| "js_eq NegInfinity NegInfinity = True"
| "js_eq _ _ = False"

text \<open>\<^verbatim>\<open>a > b\<close> and \<^verbatim>\<open>a >= b\<close>\<close>

definition js_gt :: "number \<Rightarrow> number \<Rightarrow> bool" where
  "js_gt a b = js_lt b a"

definition js_ge :: "number \<Rightarrow> number \<Rightarrow> bool" where
  "js_ge a b = (js_lt b a \<or> js_eq a b)"

text \<open>
  Rounding to binary64. An arithmetic operation gives the exact result rounded to the
  nearest number with a significand of 53 bits, a tie going to the neighbour with the
  even significand. \<open>binary_exponent a\<close> is the exponent \<open>e\<close> of the binade
  \<open>2^e \<le> a < 2^(e+1)\<close> of a positive \<open>a\<close>, not below \<open>-1022\<close> (the subnormal
  numbers share the spacing of the lowest binade); the numbers of a binade are
  \<open>2^(e-52)\<close> apart. A result of \<open>2^1024\<close> or more is an infinity. The exponent is
  found by halving a number that is at least 1 until it is below 2 (at most 1024 times:
  beyond that the result is an infinity whatever the count), and by doubling a number
  below 1 until it reaches 1 (at most 1022 times).
\<close>

definition pow2 :: "int \<Rightarrow> real" where
  "pow2 e = (if 0 \<le> e then 2 ^ nat e else 1 / 2 ^ nat (- e))"

primrec scale_down :: "nat \<Rightarrow> real \<Rightarrow> int" where
  "scale_down 0 a = 0"
| "scale_down (Suc n) a = (if a < 2 then 0 else 1 + scale_down n (a / 2))"

primrec scale_up :: "nat \<Rightarrow> real \<Rightarrow> int" where
  "scale_up 0 a = 0"
| "scale_up (Suc n) a = (if 1 \<le> a then 0 else scale_up n (2 * a) - 1)"

definition binary_exponent :: "real \<Rightarrow> int" where
  "binary_exponent a = (if 1 \<le> a then scale_down 1024 a else scale_up 1022 a)"

definition round_half_even :: "real \<Rightarrow> int" where
  "round_half_even z =
     (let n = \<lfloor>z\<rfloor>; r = z - of_int n
      in if r < 1 / 2 then n else if 1 / 2 < r then n + 1 else if even n then n else n + 1)"

definition round_double :: "real \<Rightarrow> number" where
  "round_double x =
     (if x = 0 then Finite 0
      else
        (let a = \<bar>x\<bar>;
             ulp = pow2 (binary_exponent a - 52);
             y = of_int (round_half_even (a / ulp)) * ulp
         in if pow2 1024 \<le> y then (if 0 < x then PosInfinity else NegInfinity)
            else Finite (if 0 < x then y else - y)))"

text \<open>\<^verbatim>\<open>a * b\<close>: the exact product, rounded.\<close>

fun js_sign_inf :: "real \<Rightarrow> number" where
  "js_sign_inf s = (if s = 0 then NaN else if 0 < s then PosInfinity else NegInfinity)"

fun js_mul :: "number \<Rightarrow> number \<Rightarrow> number" where
  "js_mul (Finite a) (Finite b) = round_double (a * b)"
| "js_mul NaN _ = NaN"
| "js_mul _ NaN = NaN"
| "js_mul (Finite a) PosInfinity = js_sign_inf a"
| "js_mul (Finite a) NegInfinity = js_sign_inf (- a)"
| "js_mul PosInfinity (Finite b) = js_sign_inf b"
| "js_mul NegInfinity (Finite b) = js_sign_inf (- b)"
| "js_mul PosInfinity PosInfinity = PosInfinity"
| "js_mul NegInfinity NegInfinity = PosInfinity"
| "js_mul PosInfinity NegInfinity = NegInfinity"
| "js_mul NegInfinity PosInfinity = NegInfinity"

fun Math_floor :: "number \<Rightarrow> number" where
  "Math_floor (Finite r) = Finite (of_int \<lfloor>r\<rfloor>)"
| "Math_floor n = n"

fun Math_ceil :: "number \<Rightarrow> number" where
  "Math_ceil (Finite r) = Finite (of_int \<lceil>r\<rceil>)"
| "Math_ceil n = n"

section \<open>Errors and arrays\<close>

text \<open>
  Three kinds of exception leave the class. \<open>InvalidArgument\<close> stands for the
  \<^verbatim>\<open>Error\<close> the constructor throws from its own checks, \<open>EmptyCollection\<close> for the
  \<^verbatim>\<open>Error\<close> thrown by \<^verbatim>\<open>front\<close>, \<^verbatim>\<open>back\<close>, \<^verbatim>\<open>popFront\<close> and \<^verbatim>\<open>popBack\<close>, and
  \<open>RangeError\<close> for the exception of the language when \<^verbatim>\<open>new Array(len)\<close> is given
  a length that is not an integer between 0 and \<open>2^32 - 1\<close>.
\<close>

datatype error = InvalidArgument | EmptyCollection | RangeError

text \<open>
  A slot of an array holds an item (\<open>Some x\<close>) or \<^verbatim>\<open>undefined\<close> (\<open>None\<close>).
  \<^verbatim>\<open>new Array(len)\<close> and \<^verbatim>\<open>new Array(len).fill(undefined)\<close> read the same at every
  index, so one definition serves both.
\<close>

definition MAX_ARRAY_LENGTH :: int where
  "MAX_ARRAY_LENGTH = 4294967295"

fun new_Array :: "number \<Rightarrow> error + 'a option list" where
  "new_Array (Finite r) =
     (if r = of_int \<lfloor>r\<rfloor> \<and> 0 \<le> \<lfloor>r\<rfloor> \<and> \<lfloor>r\<rfloor> \<le> MAX_ARRAY_LENGTH
      then Inr (replicate (nat \<lfloor>r\<rfloor>) None)
      else Inl RangeError)"
| "new_Array _ = Inl RangeError"

text \<open>
  \<^verbatim>\<open>a[i]\<close>: reading outside the array gives \<^verbatim>\<open>undefined\<close>.
\<close>

definition array_get :: "'a option list \<Rightarrow> int \<Rightarrow> 'a option" where
  "array_get a i = (if 0 \<le> i \<and> i < int (length a) then a ! nat i else None)"

text \<open>
  \<^verbatim>\<open>a[i] = v\<close>: writing at or beyond the length extends the array, the slots in between
  reading \<^verbatim>\<open>undefined\<close>. A write at a negative index sets a property that is no element
  of the array; the elements and the length stay as they are. (The list keeps no such
  property, so a later read at that index would give \<^verbatim>\<open>undefined\<close> here; under the
  invariant of the class, proved below, no index is ever negative or beyond the length.)
\<close>

definition array_set :: "'a option list \<Rightarrow> int \<Rightarrow> 'a option \<Rightarrow> 'a option list" where
  "array_set a i v =
     (if 0 \<le> i \<and> i < int (length a) then a[nat i := v]
      else if int (length a) \<le> i then a @ replicate (nat i - length a) None @ [v]
      else a)"

section \<open>The class SlimDeque\<close>

definition DEFAULT_SLIM_DEQUE_INITIAL_CAPACITY :: number where
  "DEFAULT_SLIM_DEQUE_INITIAL_CAPACITY = Finite 128"

definition DEFAULT_SLIM_DEQUE_CAPACITY_INCREMENT_FACTOR :: number where
  "DEFAULT_SLIM_DEQUE_CAPACITY_INCREMENT_FACTOR = Finite (3 / 2)"

text \<open>
  The literal \<^verbatim>\<open>1.1\<close> is no binary64 number; it denotes the nearest one,
  \<open>2476979795053773 / 2^51\<close>, a little above \<open>11 / 10\<close>. The other literals are exact.
\<close>

definition MIN_ALLOWED_CAPACITY_INCREMENT_FACTOR :: number where
  "MIN_ALLOWED_CAPACITY_INCREMENT_FACTOR = round_double (11 / 10)"

definition MAX_ALLOWED_CAPACITY_INCREMENT_FACTOR :: number where
  "MAX_ALLOWED_CAPACITY_INCREMENT_FACTOR = Finite 2"

text \<open>
  The private fields \<^verbatim>\<open>_cyclicBuffer\<close>, \<^verbatim>\<open>_frontIndex\<close>, \<^verbatim>\<open>_size\<close>,
  \<^verbatim>\<open>_numberOfCapacityIncrements\<close> and \<^verbatim>\<open>_capacityIncrementFactor\<close>, with \<open>p_\<close> in
  place of the leading underscore. The three counters
  hold integers; they are \<open>int\<close> and not \<open>nat\<close>, since \<^verbatim>\<open>_frontIndex - 1\<close> is
  computed before it is wrapped.
\<close>

record 'a SlimDeque =
  p_cyclicBuffer :: "'a option list"
  p_frontIndex :: int
  p_size :: int
  p_numberOfCapacityIncrements :: int
  p_capacityIncrementFactor :: number

definition isNaturalNumber :: "number \<Rightarrow> bool" where
  "isNaturalNumber num =
     (let floored = Math_floor num
      in js_ge floored (Finite 1) \<and> js_eq floored num)"

definition validateCapacityIncrementFactor :: "number \<Rightarrow> error + unit" where
  "validateCapacityIncrementFactor factor =
     (if js_lt factor MIN_ALLOWED_CAPACITY_INCREMENT_FACTOR then Inl InvalidArgument
      else if js_gt factor MAX_ALLOWED_CAPACITY_INCREMENT_FACTOR then Inl InvalidArgument
      else Inr ())"

text \<open>The constructor.\<close>

definition SlimDeque_new :: "number \<Rightarrow> number \<Rightarrow> error + 'a SlimDeque" where
  "SlimDeque_new initialCapacity capacityIncrementFactor =
     (if \<not> isNaturalNumber initialCapacity then Inl InvalidArgument
      else case validateCapacityIncrementFactor capacityIncrementFactor of
        Inl e \<Rightarrow> Inl e
      | Inr _ \<Rightarrow>
         (case new_Array initialCapacity of
            Inl e \<Rightarrow> Inl e
          | Inr buffer \<Rightarrow>
              Inr \<lparr> p_cyclicBuffer = buffer, p_frontIndex = 0, p_size = 0,
                    p_numberOfCapacityIncrements = 0,
                    p_capacityIncrementFactor = capacityIncrementFactor \<rparr>))"

text \<open>The getters \<^verbatim>\<open>size\<close>, \<^verbatim>\<open>isEmpty\<close>, \<^verbatim>\<open>capacity\<close>, \<^verbatim>\<open>numberOfCapacityIncrements\<close>.\<close>

definition size_of :: "'a SlimDeque \<Rightarrow> int" where
  "size_of d = p_size d"

definition isEmpty :: "'a SlimDeque \<Rightarrow> bool" where
  "isEmpty d = (p_size d = 0)"

definition capacity :: "'a SlimDeque \<Rightarrow> int" where
  "capacity d = int (length (p_cyclicBuffer d))"

definition numberOfCapacityIncrements :: "'a SlimDeque \<Rightarrow> int" where
  "numberOfCapacityIncrements d = p_numberOfCapacityIncrements d"

text \<open>The index helpers.\<close>

definition fixIndexIfNecessary :: "'a SlimDeque \<Rightarrow> int \<Rightarrow> int" where
  "fixIndexIfNecessary d candidateIndex =
     (if candidateIndex \<ge> int (length (p_cyclicBuffer d))
      then candidateIndex - int (length (p_cyclicBuffer d))
      else if candidateIndex < 0
      then candidateIndex + int (length (p_cyclicBuffer d))
      else candidateIndex)"

definition calculateNewBackIndex :: "'a SlimDeque \<Rightarrow> int" where
  "calculateNewBackIndex d = fixIndexIfNecessary d (p_frontIndex d + p_size d)"

definition calculateCurrentBackIndex :: "'a SlimDeque \<Rightarrow> int" where
  "calculateCurrentBackIndex d = fixIndexIfNecessary d (p_frontIndex d + p_size d - 1)"

definition calculateNewFrontIndex :: "'a SlimDeque \<Rightarrow> int" where
  "calculateNewFrontIndex d = fixIndexIfNecessary d (p_frontIndex d - 1)"

text \<open>
  \<^verbatim>\<open>_traverseFromFrontToBack\<close>. Both callbacks of the class write to the buffer or to a
  local array and counter of their caller, never to \<^verbatim>\<open>_size\<close>; so the loop carries the
  buffer and the caller's locals, and the size is fixed. The length of the buffer is
  read anew in every round, as the source does.
\<close>

function traverse_loop ::
  "(int \<Rightarrow> 'a option list \<times> 's \<Rightarrow> 'a option list \<times> 's) \<Rightarrow> int \<Rightarrow> int \<Rightarrow> int
     \<Rightarrow> 'a option list \<times> 's \<Rightarrow> 'a option list \<times> 's" where
  "traverse_loop callback sz itemsTraversed currentDequeIndex st =
     (if itemsTraversed < sz then
        (let st' = callback currentDequeIndex st;
             nextIndex = currentDequeIndex + 1
         in traverse_loop callback sz (itemsTraversed + 1)
              (if nextIndex = int (length (fst st')) then 0 else nextIndex) st')
      else st)"
  by pat_completeness auto
termination
  by (relation "measure (\<lambda>(callback, sz, itemsTraversed, currentDequeIndex, st).
        nat (sz - itemsTraversed))") auto

declare traverse_loop.simps [simp del]

definition traverseFromFrontToBack ::
  "'a SlimDeque \<Rightarrow> (int \<Rightarrow> 'a option list \<times> 's \<Rightarrow> 'a option list \<times> 's) \<Rightarrow> 's
     \<Rightarrow> 'a option list \<times> 's" where
  "traverseFromFrontToBack d callback locals =
     traverse_loop callback (p_size d) 0 (p_frontIndex d) (p_cyclicBuffer d, locals)"

text \<open>
  The getters \<^verbatim>\<open>front\<close> and \<^verbatim>\<open>back\<close> (the latter is \<open>back_of\<close> here, \<open>back\<close> being
  a word of the proof language).
\<close>

definition front :: "'a SlimDeque \<Rightarrow> error + 'a option" where
  "front d =
     (if p_size d = 0 then Inl EmptyCollection
      else Inr (array_get (p_cyclicBuffer d) (p_frontIndex d)))"

definition back_of :: "'a SlimDeque \<Rightarrow> error + 'a option" where
  "back_of d =
     (if p_size d = 0 then Inl EmptyCollection
      else (let backIndex = calculateCurrentBackIndex d
            in Inr (array_get (p_cyclicBuffer d) backIndex)))"

text \<open>
  \<^verbatim>\<open>_increaseCapacityIfNecessary\<close>. Every method that changes the deque returns what it
  returns or throws, together with the deque as the call leaves it. \<open>newCapacity_of\<close> is
  the method's local \<^verbatim>\<open>newCapacity\<close>, \<^verbatim>\<open>Math.ceil\<close> of the rounded product, and
  \<open>relocate_callback\<close> is the callback it hands to the traversal, with the new buffer
  and its write cursor as the locals. The only
  statement of the method that can throw, \<^verbatim>\<open>new Array(newCapacity)\<close>, comes before its
  first assignment.
\<close>

definition newCapacity_of :: "int \<Rightarrow> number \<Rightarrow> number" where
  "newCapacity_of currCapacity factor = Math_ceil (js_mul (Finite (of_int currCapacity)) factor)"

definition relocate_callback ::
  "int \<Rightarrow> 'a option list \<times> 'a option list \<times> int \<Rightarrow> 'a option list \<times> 'a option list \<times> int" where
  "relocate_callback currentIndex st =
     (case st of (cyclicBuffer, newCyclicBuffer, newBufferLastOccupiedIndex) \<Rightarrow>
        (array_set cyclicBuffer currentIndex None,
         array_set newCyclicBuffer newBufferLastOccupiedIndex (array_get cyclicBuffer currentIndex),
         newBufferLastOccupiedIndex + 1))"

definition increaseCapacityIfNecessary :: "'a SlimDeque \<Rightarrow> (error + unit) \<times> 'a SlimDeque" where
  "increaseCapacityIfNecessary d =
     (let currCapacity = int (length (p_cyclicBuffer d))
      in if p_size d < currCapacity then (Inr (), d)
         else
          (case new_Array (newCapacity_of currCapacity (p_capacityIncrementFactor d)) of
             Inl e \<Rightarrow> (Inl e, d)
           | Inr newCyclicBuffer \<Rightarrow>
              (case traverseFromFrontToBack d relocate_callback (newCyclicBuffer, 0) of
                 (oldBuffer, filledBuffer, lastOccupied) \<Rightarrow>
                   (Inr (),
                    d\<lparr> p_frontIndex := 0,
                       p_cyclicBuffer := filledBuffer,
                       p_numberOfCapacityIncrements := p_numberOfCapacityIncrements d + 1 \<rparr>))))"

definition pushBack :: "'a SlimDeque \<Rightarrow> 'a \<Rightarrow> (error + unit) \<times> 'a SlimDeque" where
  "pushBack d item =
     (case increaseCapacityIfNecessary d of
        (Inl e, d') \<Rightarrow> (Inl e, d')
      | (Inr _, d') \<Rightarrow>
          (let newBackIndex = calculateNewBackIndex d'
           in (Inr (),
               d'\<lparr> p_cyclicBuffer := array_set (p_cyclicBuffer d') newBackIndex (Some item),
                   p_size := p_size d' + 1 \<rparr>)))"

definition pushFront :: "'a SlimDeque \<Rightarrow> 'a \<Rightarrow> (error + unit) \<times> 'a SlimDeque" where
  "pushFront d item =
     (case increaseCapacityIfNecessary d of
        (Inl e, d') \<Rightarrow> (Inl e, d')
      | (Inr _, d') \<Rightarrow>
          (let newFrontIndex = calculateNewFrontIndex d'
           in (Inr (),
               d'\<lparr> p_frontIndex := newFrontIndex,
                   p_cyclicBuffer := array_set (p_cyclicBuffer d') newFrontIndex (Some item),
                   p_size := p_size d' + 1 \<rparr>)))"

definition popBack :: "'a SlimDeque \<Rightarrow> (error + 'a option) \<times> 'a SlimDeque" where
  "popBack d =
     (if p_size d = 0 then (Inl EmptyCollection, d)
      else
        (let currentBackIndex = calculateCurrentBackIndex d;
             oldBackItem = array_get (p_cyclicBuffer d) currentBackIndex
         in (Inr oldBackItem,
             d\<lparr> p_cyclicBuffer := array_set (p_cyclicBuffer d) currentBackIndex None,
                p_size := p_size d - 1 \<rparr>)))"

definition popFront :: "'a SlimDeque \<Rightarrow> (error + 'a option) \<times> 'a SlimDeque" where
  "popFront d =
     (if p_size d = 0 then (Inl EmptyCollection, d)
      else
        (let oldFrontItem = array_get (p_cyclicBuffer d) (p_frontIndex d);
             cleared = array_set (p_cyclicBuffer d) (p_frontIndex d) None;
             incremented = p_frontIndex d + 1
         in (Inr oldFrontItem,
             d\<lparr> p_cyclicBuffer := cleared,
                p_frontIndex := (if incremented = int (length cleared) then 0 else incremented),
                p_size := p_size d - 1 \<rparr>)))"

text \<open>
  \<^verbatim>\<open>clear\<close>. The loop runs while the deque is not empty; with a negative \<^verbatim>\<open>_size\<close> it
  would never stop, so its result is optional and \<open>None\<close> stands for a loop without end.
\<close>

partial_function (option) clear_loop :: "'a SlimDeque \<Rightarrow> 'a SlimDeque option" where
  "clear_loop d = (if \<not> isEmpty d then clear_loop (snd (popFront d)) else Some d)"

declare clear_loop.simps [code]

definition clear :: "'a SlimDeque \<Rightarrow> 'a SlimDeque option" where
  "clear d = map_option (\<lambda>d'. d'\<lparr> p_frontIndex := 0 \<rparr>) (clear_loop d)"

text \<open>
  \<^verbatim>\<open>getSnapshot\<close>, with its callback; the locals are the snapshot array and
  \<^verbatim>\<open>snapshotIndex\<close>.
\<close>

definition snapshot_callback ::
  "int \<Rightarrow> 'a option list \<times> 'a option list \<times> int \<Rightarrow> 'a option list \<times> 'a option list \<times> int" where
  "snapshot_callback currentIndex st =
     (case st of (cyclicBuffer, snapshotFrontToBack, snapshotIndex) \<Rightarrow>
        (cyclicBuffer,
         array_set snapshotFrontToBack snapshotIndex (array_get cyclicBuffer currentIndex),
         snapshotIndex + 1))"

definition getSnapshot :: "'a SlimDeque \<Rightarrow> error + 'a option list" where
  "getSnapshot d =
     (case new_Array (Finite (of_int (p_size d))) of
        Inl e \<Rightarrow> Inl e
      | Inr snapshotFrontToBack \<Rightarrow>
          (case traverseFromFrontToBack d snapshot_callback (snapshotFrontToBack, 0) of
             (cyclicBuffer, snapshot, snapshotIndex) \<Rightarrow> Inr snapshot))"

text \<open>
  What the specification says of \<^verbatim>\<open>clear\<close>, in its own words: \<^verbatim>\<open>popFront\<close> again and
  again until the deque is empty (as many times as there are items), then the front index
  is reset.
\<close>

fun popFront_repeat :: "nat \<Rightarrow> 'a SlimDeque \<Rightarrow> 'a SlimDeque" where
  "popFront_repeat 0 d = d"
| "popFront_repeat (Suc n) d = popFront_repeat n (snd (popFront d))"

definition clear_spec :: "'a SlimDeque \<Rightarrow> 'a SlimDeque" where
  "clear_spec d = (popFront_repeat (nat (p_size d)) d)\<lparr> p_frontIndex := 0 \<rparr>"

section \<open>Sequences of calls\<close>

text \<open>
  A caller drives the deque by a sequence of calls. \<open>apply_op\<close> makes one call and gives
  what the call returned or threw, with the deque as the call left it; a caller that
  catches the exception goes on with that deque. \<open>run\<close> makes the calls of a list in
  order and collects their outcomes.
\<close>

datatype 'a operation = PushFront 'a | PushBack 'a | PopFront | PopBack | Clear

fun apply_op ::
  "'a SlimDeque \<Rightarrow> 'a operation \<Rightarrow> ((error + 'a option) \<times> 'a SlimDeque) option" where
  "apply_op d (PushFront x) =
     (case pushFront d x of (r, d') \<Rightarrow> Some (map_sum id (\<lambda>u. None) r, d'))"
| "apply_op d (PushBack x) =
     (case pushBack d x of (r, d') \<Rightarrow> Some (map_sum id (\<lambda>u. None) r, d'))"
| "apply_op d PopFront = Some (popFront d)"
| "apply_op d PopBack = Some (popBack d)"
| "apply_op d Clear = map_option (\<lambda>d'. (Inr None, d')) (clear d)"

fun run ::
  "'a SlimDeque \<Rightarrow> 'a operation list \<Rightarrow> ((error + 'a option) list \<times> 'a SlimDeque) option" where
  "run d [] = Some ([], d)"
| "run d (op # ops) =
     (case apply_op d op of
        None \<Rightarrow> None
      | Some (r, d') \<Rightarrow>
          (case run d' ops of
             None \<Rightarrow> None
           | Some (rs, d'') \<Rightarrow> Some (r # rs, d'')))"

text \<open>
  The reference deque of the specification: a list, front first. A pop of the empty
  list leaves it empty.
\<close>

fun ref_apply :: "'a list \<Rightarrow> 'a operation \<Rightarrow> 'a list" where
  "ref_apply xs (PushFront x) = x # xs"
| "ref_apply xs (PushBack x) = xs @ [x]"
| "ref_apply xs PopFront = tl xs"
| "ref_apply xs PopBack = butlast xs"
| "ref_apply xs Clear = []"

definition ref_run :: "'a list \<Rightarrow> 'a operation list \<Rightarrow> 'a list" where
  "ref_run xs ops = foldl ref_apply xs ops"

section \<open>The invariant of the class and the logical content\<close>

text \<open>
  \<open>invar\<close> collects what the constructor establishes and every method keeps: a buffer
  of at least one and at most \<open>2^32 - 1\<close> slots, a front index inside the buffer, a size
  between 0 and the capacity, and a factor that passed the constructor's check.
\<close>

definition invar :: "'a SlimDeque \<Rightarrow> bool" where
  "invar d \<longleftrightarrow>
     1 \<le> capacity d \<and> capacity d \<le> MAX_ARRAY_LENGTH \<and>
     0 \<le> p_frontIndex d \<and> p_frontIndex d < capacity d \<and>
     0 \<le> p_size d \<and> p_size d \<le> capacity d \<and>
     validateCapacityIncrementFactor (p_capacityIncrementFactor d) = Inr ()"

text \<open>
  The occupied region, front to back, as indices into the buffer, and the slots found
  there.
\<close>

definition occupied :: "'a SlimDeque \<Rightarrow> int list" where
  "occupied d =
     map (\<lambda>k. (p_frontIndex d + int k) mod capacity d) [0..<nat (p_size d)]"

definition items :: "'a SlimDeque \<Rightarrow> 'a option list" where
  "items d = map (array_get (p_cyclicBuffer d)) (occupied d)"

text \<open>The deque \<open>d\<close> stores the items \<open>xs\<close>, front first.\<close>

definition stores :: "'a SlimDeque \<Rightarrow> 'a list \<Rightarrow> bool" where
  "stores d xs \<longleftrightarrow> invar d \<and> items d = map Some xs"

section \<open>Index arithmetic and the traversal\<close>

lemma mod_neq:
  fixes f i j c :: int
  assumes "i < j" "j - i < c"
  shows "(f + i) mod c \<noteq> (f + j) mod c"
proof
  assume "(f + i) mod c = (f + j) mod c"
  then have "c dvd ((f + j) - (f + i))"
    by (metis mod_eq_dvd_iff)
  then have "c dvd (j - i)" by simp
  moreover have "0 < j - i" using assms by simp
  ultimately have "c \<le> j - i" by (rule zdvd_imp_le)
  with assms show False by simp
qed

lemma fix_mod:
  fixes x :: int
  assumes "0 < int (length (p_cyclicBuffer d))" "- int (length (p_cyclicBuffer d)) \<le> x"
    "x < 2 * int (length (p_cyclicBuffer d))"
  shows "fixIndexIfNecessary d x = x mod int (length (p_cyclicBuffer d))"
proof -
  let ?c = "int (length (p_cyclicBuffer d))"
  consider "?c \<le> x" | "x < 0" | "0 \<le> x" "x < ?c" by linarith
  then show ?thesis
  proof cases
    case 1
    then have "0 \<le> x - ?c" "x - ?c < ?c" using assms by auto
    then have "(x - ?c) mod ?c = x - ?c" by (rule mod_pos_pos_trivial)
    then have "x mod ?c = x - ?c" by (simp only: minus_mod_self2)
    then show ?thesis using 1 by (simp add: fixIndexIfNecessary_def)
  next
    case 2
    then have "0 \<le> x + ?c" "x + ?c < ?c" using assms by auto
    then have "(x + ?c) mod ?c = x + ?c" by (rule mod_pos_pos_trivial)
    then have "x mod ?c = x + ?c" by (simp only: mod_add_self2)
    then show ?thesis using 2 assms by (simp add: fixIndexIfNecessary_def)
  next
    case 3
    then show ?thesis by (simp add: fixIndexIfNecessary_def)
  qed
qed

lemma traverse_loop_fold:
  assumes len: "\<And>i s. 0 \<le> i \<Longrightarrow> i < int (length (fst s)) \<Longrightarrow> length (fst (cb i s)) = length (fst s)"
    and "0 \<le> c" "c < int (length (fst st))" "t \<le> n" "m = nat (n - t)"
  shows "traverse_loop cb n t c st =
         fold cb (map (\<lambda>k. (c + int k) mod int (length (fst st))) [0..<m]) st"
  using assms(2-)
proof (induction m arbitrary: t c st)
  case 0
  then have "\<not> t < n" by simp
  then show ?case by (simp add: traverse_loop.simps)
next
  case (Suc m)
  let ?L = "int (length (fst st))"
  let ?st = "cb c st"
  let ?c = "if c + 1 = int (length (fst ?st)) then 0 else c + 1"
  have tn: "t < n" using Suc.prems by simp
  have L: "length (fst ?st) = length (fst st)" using len Suc.prems by simp
  have c': "?c = (c + 1) mod ?L" using Suc.prems L by auto
  have "0 \<le> ?c" "?c < int (length (fst ?st))" using Suc.prems L by auto
  moreover have "t + 1 \<le> n" "m = nat (n - (t + 1))" using Suc.prems by auto
  ultimately have IH: "traverse_loop cb n (t + 1) ?c ?st =
      fold cb (map (\<lambda>k. (?c + int k) mod int (length (fst ?st))) [0..<m]) ?st"
    by (rule Suc.IH)
  have idx: "(\<lambda>k. (?c + int k) mod int (length (fst ?st))) = (\<lambda>k. (c + int (Suc k)) mod ?L)"
  proof
    fix k
    have "(?c + int k) mod ?L = ((c + 1) mod ?L + int k) mod ?L" by (simp only: c')
    also have "\<dots> = (c + 1 + int k) mod ?L" by (simp only: mod_add_left_eq)
    also have "c + 1 + int k = c + int (Suc k)" by simp
    finally show "(?c + int k) mod int (length (fst ?st)) = (c + int (Suc k)) mod ?L"
      by (simp only: L)
  qed
  have c0: "c mod ?L = c" using Suc.prems by simp
  have "[0..<Suc m] = 0 # map Suc [0..<m]" by (simp add: upt_conv_Cons map_Suc_upt del: upt_Suc)
  then have "fold cb (map (\<lambda>k. (c + int k) mod ?L) [0..<Suc m]) st
      = fold cb (map (\<lambda>k. (c + int (Suc k)) mod ?L) [0..<m]) ?st"
    using c0 by (simp add: comp_def del: upt_Suc)
  moreover have "traverse_loop cb n t c st = traverse_loop cb n (t + 1) ?c ?st"
    using tn by (subst traverse_loop.simps) (simp add: Let_def)
  ultimately show ?case using IH idx by simp
qed

lemma take_Suc_update:
  "n < length xs \<Longrightarrow> take (Suc n) (xs[n := v]) = take n xs @ [v]"
  by (simp add: take_Suc_conv_app_nth)

lemma array_set_in_range:
  "0 \<le> i \<Longrightarrow> i < int (length a) \<Longrightarrow> array_set a i v = a[nat i := v]"
  by (simp add: array_set_def)

lemma fold_snapshot_callback:
  assumes "0 \<le> j" "nat j + length idxs \<le> length snap"
  shows "fold snapshot_callback idxs (buf, snap, j) =
     (buf, take (nat j) snap @ map (array_get buf) idxs @ drop (nat j + length idxs) snap,
      j + int (length idxs))"
  using assms
proof (induction idxs arbitrary: snap j)
  case Nil
  then show ?case by simp
next
  case (Cons i idxs)
  let ?snap = "snap[nat j := array_get buf i]"
  have j: "nat j < length snap" using Cons.prems by simp
  have step: "snapshot_callback i (buf, snap, j) = (buf, ?snap, j + 1)"
    using Cons.prems j by (simp add: snapshot_callback_def array_set_in_range)
  have n: "nat (j + 1) = Suc (nat j)" using Cons.prems by simp
  have "fold snapshot_callback idxs (buf, ?snap, j + 1) =
     (buf, take (nat (j + 1)) ?snap @ map (array_get buf) idxs
           @ drop (nat (j + 1) + length idxs) ?snap,
      j + 1 + int (length idxs))"
    using Cons.prems by (intro Cons.IH) auto
  then show ?case
    using j by (simp add: step n take_Suc_update)
qed

lemma fold_relocate_callback:
  assumes "0 \<le> j" "nat j + length idxs \<le> length nb" "distinct idxs"
    "\<forall>i\<in>set idxs. 0 \<le> i \<and> i < int (length buf)"
  shows "snd (fold relocate_callback idxs (buf, nb, j)) =
     (take (nat j) nb @ map (array_get buf) idxs @ drop (nat j + length idxs) nb,
      j + int (length idxs))"
  using assms
proof (induction idxs arbitrary: buf nb j)
  case Nil
  then show ?case by simp
next
  case (Cons i idxs)
  let ?nb = "nb[nat j := array_get buf i]"
  let ?buf = "buf[nat i := None]"
  have j: "nat j < length nb" using Cons.prems by simp
  have i: "0 \<le> i" "i < int (length buf)" using Cons.prems by auto
  have step: "relocate_callback i (buf, nb, j) = (?buf, ?nb, j + 1)"
    using Cons.prems j i by (simp add: relocate_callback_def array_set_in_range)
  have n: "nat (j + 1) = Suc (nat j)" using Cons.prems by simp
  have same: "map (array_get ?buf) idxs = map (array_get buf) idxs"
  proof (rule map_cong[OF refl])
    fix k assume k: "k \<in> set idxs"
    then have "k \<noteq> i" "0 \<le> k" "k < int (length buf)" using Cons.prems by auto
    then have "nat k \<noteq> nat i" using i by simp
    then show "array_get ?buf k = array_get buf k"
      by (simp add: array_get_def)
  qed
  have "snd (fold relocate_callback idxs (?buf, ?nb, j + 1)) =
     (take (nat (j + 1)) ?nb @ map (array_get ?buf) idxs
           @ drop (nat (j + 1) + length idxs) ?nb,
      j + 1 + int (length idxs))"
    using Cons.prems by (intro Cons.IH) auto
  then show ?case
    using j by (simp add: step n take_Suc_update same)
qed

lemma snapshot_callback_length:
  "length (fst (snapshot_callback i s)) = length (fst s)"
  by (cases s) (simp add: snapshot_callback_def)

lemma relocate_callback_length:
  "0 \<le> i \<Longrightarrow> i < int (length (fst s)) \<Longrightarrow> length (fst (relocate_callback i s)) = length (fst s)"
  by (cases s) (simp add: relocate_callback_def array_set_in_range)

lemma invar_capacity: "invar d \<Longrightarrow> 0 < length (p_cyclicBuffer d)"
  by (cases "p_cyclicBuffer d") (simp_all add: invar_def capacity_def)

lemma traverse_occupied:
  assumes "invar d"
    and "\<And>i s. 0 \<le> i \<Longrightarrow> i < int (length (fst s)) \<Longrightarrow> length (fst (cb i s)) = length (fst s)"
  shows "traverseFromFrontToBack d cb locals = fold cb (occupied d) (p_cyclicBuffer d, locals)"
proof -
  have "traverse_loop cb (p_size d) 0 (p_frontIndex d) (p_cyclicBuffer d, locals) =
        fold cb (map (\<lambda>k. (p_frontIndex d + int k) mod int (length (fst (p_cyclicBuffer d, locals))))
                  [0..<nat (p_size d)]) (p_cyclicBuffer d, locals)"
    using assms(1) by (intro traverse_loop_fold assms(2)) (auto simp: invar_def capacity_def)
  then show ?thesis
    by (simp add: traverseFromFrontToBack_def occupied_def capacity_def)
qed

lemma length_occupied: "length (occupied d) = nat (p_size d)"
  by (simp add: occupied_def)

lemma occupied_in_range:
  assumes "invar d" "i \<in> set (occupied d)"
  shows "0 \<le> i \<and> i < int (length (p_cyclicBuffer d))"
proof -
  have "0 < int (length (p_cyclicBuffer d))" using invar_capacity[OF assms(1)] by simp
  then show ?thesis using assms(2) by (auto simp: occupied_def capacity_def)
qed

lemma distinct_occupied:
  assumes "invar d"
  shows "distinct (occupied d)"
proof -
  have "inj_on (\<lambda>k. (p_frontIndex d + int k) mod capacity d) {0..<nat (p_size d)}"
  proof (rule inj_onI)
    fix x y assume xy: "x \<in> {0..<nat (p_size d)}" "y \<in> {0..<nat (p_size d)}"
      and eq: "(p_frontIndex d + int x) mod capacity d = (p_frontIndex d + int y) mod capacity d"
    have b: "int x < capacity d" "int y < capacity d" using xy assms by (auto simp: invar_def)
    show "x = y"
    proof (rule ccontr)
      assume "x \<noteq> y"
      then consider "int x < int y" | "int y < int x" by linarith
      then show False
      proof cases
        case 1
        from mod_neq[OF 1, of "capacity d" "p_frontIndex d"] b eq show False by simp
      next
        case 2
        from mod_neq[OF 2, of "capacity d" "p_frontIndex d"] b eq show False by simp
      qed
    qed
  qed
  then show ?thesis by (simp add: occupied_def distinct_map)
qed

lemma new_Array_size:
  assumes "invar d"
  shows "new_Array (Finite (of_int (p_size d))) = (Inr (replicate (nat (p_size d)) None) :: error + 'b option list)"
proof -
  have "0 \<le> p_size d" "p_size d \<le> MAX_ARRAY_LENGTH" using assms by (auto simp: invar_def)
  then show ?thesis by simp
qed

lemma getSnapshot_items:
  assumes "invar d"
  shows "getSnapshot d = Inr (items d)"
proof -
  have "traverseFromFrontToBack d snapshot_callback (replicate (nat (p_size d)) None, 0) =
        fold snapshot_callback (occupied d) (p_cyclicBuffer d, replicate (nat (p_size d)) None, 0)"
    using assms by (intro traverse_occupied) (simp_all add: snapshot_callback_length)
  also have "\<dots> = (p_cyclicBuffer d, items d, p_size d)"
    using assms by (subst fold_snapshot_callback) (simp_all add: length_occupied items_def invar_def)
  finally show ?thesis
    by (simp add: getSnapshot_def new_Array_size[OF assms] del: new_Array.simps)
qed

section \<open>Growth of the buffer\<close>

lemma array_get_set:
  assumes "0 \<le> i" "i < int (length a)"
  shows "array_get (array_set a i v) j = (if j = i then v else array_get a j)"
  using assms by (auto simp: array_get_def array_set_def)

lemma length_array_set:
  "0 \<le> i \<Longrightarrow> i < int (length a) \<Longrightarrow> length (array_set a i v) = length a"
  by (simp add: array_set_def)

lemma pow2_powi: "pow2 e = 2 powi e"
  by (simp add: pow2_def power_int_def field_simps)

lemma round_half_even_near: "\<bar>of_int (round_half_even z) - z\<bar> \<le> 1 / 2"
proof -
  have "of_int \<lfloor>z\<rfloor> \<le> z" "z < of_int \<lfloor>z\<rfloor> + 1" by linarith+
  then show ?thesis
    by (auto simp: round_half_even_def Let_def)
qed

lemma scale_down_le:
  "1 \<le> a \<Longrightarrow> 0 \<le> scale_down n a \<and> pow2 (scale_down n a) \<le> a"
proof (induction n arbitrary: a)
  case 0
  then show ?case by (simp add: pow2_def)
next
  case (Suc n)
  show ?case
  proof (cases "a < 2")
    case True
    then show ?thesis using Suc.prems by (simp add: pow2_def)
  next
    case False
    then have "1 \<le> a / 2" by simp
    from Suc.IH[OF this] have ih: "0 \<le> scale_down n (a / 2)" "pow2 (scale_down n (a / 2)) \<le> a / 2"
      by simp_all
    have "pow2 (1 + scale_down n (a / 2)) = 2 * pow2 (scale_down n (a / 2))"
      using ih(1) by (simp add: pow2_def nat_add_distrib)
    then show ?thesis using False ih by simp
  qed
qed

lemma pow2_pos: "0 < pow2 e"
  by (simp add: pow2_powi)

lemma pow2_minus_52: "pow2 (e - 52) = pow2 e / 2 ^ 52"
proof -
  have "pow2 e = pow2 (e - 52 + 52)" by simp
  also have "\<dots> = pow2 (e - 52) * 2 powi 52"
    unfolding pow2_powi by (rule power_int_add) simp
  finally show ?thesis by simp
qed

lemma pow2_1024: "pow2 1024 = 2 ^ 1024"
  by (simp add: pow2_def)

lemma binary_exponent_ge1:
  assumes "1 \<le> a"
  shows "0 \<le> binary_exponent a" "pow2 (binary_exponent a) \<le> a"
proof -
  have be: "binary_exponent a = scale_down 1024 a"
    using assms by (simp only: binary_exponent_def if_True)
  show "0 \<le> binary_exponent a" unfolding be by (rule conjunct1[OF scale_down_le[OF assms]])
  show "pow2 (binary_exponent a) \<le> a" unfolding be by (rule conjunct2[OF scale_down_le[OF assms]])
qed

lemma round_to_ulp_near:
  assumes "0 < ulp"
  shows "\<bar>of_int (round_half_even (x / ulp)) * ulp - x\<bar> \<le> ulp / 2"
proof -
  have "\<bar>of_int (round_half_even (x / ulp)) - x / ulp\<bar> \<le> 1 / 2"
    by (rule round_half_even_near)
  then have "\<bar>of_int (round_half_even (x / ulp)) - x / ulp\<bar> * ulp \<le> 1 / 2 * ulp"
    using assms by (intro mult_right_mono) simp_all
  moreover have "\<bar>of_int (round_half_even (x / ulp)) - x / ulp\<bar> * ulp =
      \<bar>(of_int (round_half_even (x / ulp)) - x / ulp) * ulp\<bar>"
    using assms by (simp add: abs_mult)
  moreover have "(of_int (round_half_even (x / ulp)) - x / ulp) * ulp =
      of_int (round_half_even (x / ulp)) * ulp - x"
    using assms by (simp add: left_diff_distrib)
  ultimately show ?thesis by simp
qed

lemma round_double_pos:
  assumes "0 < x"
  shows "round_double x =
     (if pow2 1024 \<le> of_int (round_half_even (x / pow2 (binary_exponent x - 52))) * pow2 (binary_exponent x - 52)
      then PosInfinity
      else Finite (of_int (round_half_even (x / pow2 (binary_exponent x - 52))) * pow2 (binary_exponent x - 52)))"
proof -
  have "\<bar>x\<bar> = x" "x \<noteq> 0" using assms by simp_all
  then show ?thesis using assms by (simp only: round_double_def Let_def if_False if_True)
qed

lemma round_double_near:
  assumes "1 \<le> x"
  shows "round_double x = PosInfinity \<or>
         (\<exists>y. round_double x = Finite y \<and> \<bar>y - x\<bar> \<le> x / 2 ^ 53)"
    and "x \<le> 2 ^ 1000 \<Longrightarrow> round_double x \<noteq> PosInfinity"
proof -
  define ulp where "ulp = pow2 (binary_exponent x - 52)"
  define y where "y = of_int (round_half_even (x / ulp)) * ulp"
  have x: "0 < x" using assms by simp
  have ulp_pos: "0 < ulp" unfolding ulp_def by (rule pow2_pos)
  have "\<bar>y - x\<bar> \<le> ulp / 2" unfolding y_def by (rule round_to_ulp_near[OF ulp_pos])
  also have "ulp / 2 = pow2 (binary_exponent x) / 2 ^ 53" by (simp add: ulp_def pow2_minus_52)
  also have "\<dots> \<le> x / 2 ^ 53"
    using binary_exponent_ge1(2)[OF assms] by (rule divide_right_mono) simp
  finally have near: "\<bar>y - x\<bar> \<le> x / 2 ^ 53" .
  have rd: "round_double x = (if pow2 1024 \<le> y then PosInfinity else Finite y)"
    unfolding y_def ulp_def by (rule round_double_pos[OF x])
  show "round_double x = PosInfinity \<or>
         (\<exists>y. round_double x = Finite y \<and> \<bar>y - x\<bar> \<le> x / 2 ^ 53)"
    using rd near by (cases "pow2 1024 \<le> y") auto
  show "round_double x \<noteq> PosInfinity" if "x \<le> 2 ^ 1000"
  proof -
    have "x / 2 ^ 53 \<le> x" using x by (simp add: field_simps)
    then have "y \<le> 2 * x" using near by linarith
    also have "\<dots> \<le> 2 * 2 ^ 1000" using that by simp
    also have "\<dots> < (2::real) ^ 1024" by simp
    finally have "y < pow2 1024" by (simp only: pow2_1024)
    then show ?thesis using rd by simp
  qed
qed

text \<open>
  Powers of two by repeated squaring, for evaluation; and the value of the literal
  \<^verbatim>\<open>1.1\<close>.
\<close>

lemma pow2_code [code]:
  "pow2 e =
     (if e < 0 then 1 / pow2 (- e)
      else if e = 0 then 1
      else if even e then (let h = pow2 (e div 2) in h * h)
      else 2 * pow2 (e - 1))"
proof -
  have neg: "pow2 e = 1 / pow2 (- e)" if "e < 0"
    using that by (simp add: pow2_def)
  have ev: "pow2 e = pow2 (e div 2) * pow2 (e div 2)" if "even e"
  proof -
    have "e = e div 2 + e div 2" using that by presburger
    then have "pow2 e = 2 powi (e div 2 + e div 2)" by (simp only: pow2_powi)
    also have "\<dots> = 2 powi (e div 2) * 2 powi (e div 2)" by (rule power_int_add) simp
    finally show ?thesis by (simp only: pow2_powi)
  qed
  have od: "pow2 e = 2 * pow2 (e - 1)"
  proof -
    have "pow2 e = 2 powi (e - 1 + 1)" by (simp add: pow2_powi)
    also have "\<dots> = 2 powi (e - 1) * 2 powi 1" by (rule power_int_add) simp
    finally show ?thesis by (simp add: pow2_powi)
  qed
  have z: "pow2 0 = 1" by (simp add: pow2_def)
  consider "e < 0" | "e = 0" | "0 < e" "even e" | "0 < e" "odd e" by linarith
  then show ?thesis
  proof cases
    case 1
    then show ?thesis using neg by simp
  next
    case 2
    then show ?thesis using z by simp
  next
    case 3
    then show ?thesis using ev by (simp add: Let_def)
  next
    case 4
    then show ?thesis using od by simp
  qed
qed

lemma MIN_value [code]:
  "MIN_ALLOWED_CAPACITY_INCREMENT_FACTOR = Finite (2476979795053773 / 2251799813685248)"
  unfolding MIN_ALLOWED_CAPACITY_INCREMENT_FACTOR_def by code_simp

lemma factor_cases:
  "validateCapacityIncrementFactor f = Inr () \<longleftrightarrow>
     f = NaN \<or> (\<exists>r. f = Finite r \<and> 2476979795053773 / 2251799813685248 \<le> r \<and> r \<le> 2)"
  by (cases f)
     (auto simp: validateCapacityIncrementFactor_def MIN_value
        MAX_ALLOWED_CAPACITY_INCREMENT_FACTOR_def js_gt_def)

lemma factor_valid:
  assumes "validateCapacityIncrementFactor f = Inr ()"
  shows "f = NaN \<or> (\<exists>r. f = Finite r \<and> 11 / 10 \<le> r \<and> r \<le> 2)"
proof -
  have "(11 / 10 :: real) \<le> 2476979795053773 / 2251799813685248" by simp
  then show ?thesis using assms by (auto simp: factor_cases)
qed

lemma newCapacity_of_Finite:
  "newCapacity_of c (Finite r) = Math_ceil (round_double (of_int c * r))"
  by (simp add: newCapacity_of_def)

lemma newCapacity_of_NaN: "newCapacity_of c NaN = NaN"
  by (simp add: newCapacity_of_def)

lemma rounded_product_gt:
  fixes c :: int and r y :: real
  assumes "1 \<le> c" "11 / 10 \<le> r" "\<bar>y - of_int c * r\<bar> \<le> of_int c * r / 2 ^ 53"
  shows "of_int c < y" "1 \<le> of_int c * r"
proof -
  let ?x = "of_int c * r"
  have c: "(1::real) \<le> of_int c" using assms(1) by simp
  then have "of_int c * (11 / 10) \<le> ?x" using assms(2) by (intro mult_left_mono) simp_all
  then have x: "11 / 10 * of_int c \<le> ?x" by simp
  then show x1: "1 \<le> ?x" using c by linarith
  have "?x / 2 ^ 53 \<le> ?x / 22" using x1 by (intro divide_left_mono) simp_all
  then show "of_int c < y" using assms(3) x c by linarith
qed

lemma newCapacity_of_gt:
  assumes "1 \<le> c" "11 / 10 \<le> r"
  shows "js_gt (newCapacity_of c (Finite r)) (Finite (of_int c))"
proof -
  let ?x = "of_int c * r"
  have c: "(1::real) \<le> of_int c" using assms(1) by simp
  then have "of_int c * (11 / 10) \<le> ?x" using assms(2) by (intro mult_left_mono) simp_all
  then have x1: "1 \<le> ?x" using c by linarith
  from round_double_near(1)[OF x1] show ?thesis
  proof
    assume "round_double ?x = PosInfinity"
    then show ?thesis by (simp add: newCapacity_of_Finite js_gt_def)
  next
    assume "\<exists>y. round_double ?x = Finite y \<and> \<bar>y - ?x\<bar> \<le> ?x / 2 ^ 53"
    then obtain y where y: "round_double ?x = Finite y" "\<bar>y - ?x\<bar> \<le> ?x / 2 ^ 53" by blast
    have "of_int c < y" using assms y(2) by (rule rounded_product_gt(1))
    moreover have "y \<le> of_int \<lceil>y\<rceil>" by (rule le_of_int_ceiling)
    ultimately have "(of_int c :: real) < of_int \<lceil>y\<rceil>" by linarith
    then show ?thesis using y(1) by (simp add: newCapacity_of_Finite js_gt_def)
  qed
qed

lemma newCapacity_of_bounds:
  assumes "1 \<le> c" "c \<le> MAX_ARRAY_LENGTH" "11 / 10 \<le> r" "r \<le> 2"
  shows "\<exists>n. newCapacity_of c (Finite r) = Finite (of_int n) \<and> c < n \<and> n \<le> 2 * c + 1"
proof -
  let ?x = "of_int c * r"
  have c: "(1::real) \<le> of_int c" "(of_int c :: real) \<le> 4294967295"
    using assms(1,2) by (simp_all add: MAX_ARRAY_LENGTH_def)
  then have "of_int c * (11 / 10) \<le> ?x" using assms(3) by (intro mult_left_mono) simp_all
  then have x1: "1 \<le> ?x" using c by linarith
  have "?x \<le> of_int c * 2" using c assms(4) by (intro mult_left_mono) simp_all
  then have x2: "?x \<le> 2 * of_int c" by simp
  then have x3: "?x \<le> 8589934590" using c by linarith
  then have "?x / 2 ^ 53 \<le> 8589934590 / 2 ^ 53" by (intro divide_right_mono) simp_all
  also have "\<dots> \<le> (1 / 2 :: real)" by simp
  finally have small1: "?x / 2 ^ 53 \<le> 1 / 2" .
  have "(8589934590 :: real) \<le> 2 ^ 1000" by simp
  then have small2: "?x \<le> 2 ^ 1000" using x3 by linarith
  note small = small1 small2
  from round_double_near(1)[OF x1] round_double_near(2)[OF x1 small(2)]
  obtain y where y: "round_double ?x = Finite y" "\<bar>y - ?x\<bar> \<le> ?x / 2 ^ 53" by blast
  have "of_int c < y" using assms(1,3) y(2) by (rule rounded_product_gt(1))
  then have lo: "c < \<lceil>y\<rceil>" by (simp add: less_ceiling_iff)
  have "y \<le> 2 * of_int c + 1" using y(2) x2 small(1) by linarith
  then have "y \<le> of_int (2 * c + 1)" by simp
  then have hi: "\<lceil>y\<rceil> \<le> 2 * c + 1" by (simp only: ceiling_le_iff)
  show ?thesis using y(1) lo hi by (intro exI[of _ "\<lceil>y\<rceil>"]) (simp add: newCapacity_of_Finite)
qed

lemma new_Array_of_int:
  "new_Array (Finite (of_int n)) =
     (if 0 \<le> n \<and> n \<le> MAX_ARRAY_LENGTH then Inr (replicate (nat n) None) else Inl RangeError)"
  by simp

lemma new_Array_error: "new_Array n = Inl e \<Longrightarrow> e = RangeError"
  by (cases n) (auto split: if_splits)

lemma new_Array_length:
  "new_Array n = Inr a \<Longrightarrow> n = Finite (of_int (int (length a))) \<and> a = replicate (length a) None
     \<and> int (length a) \<le> MAX_ARRAY_LENGTH"
  by (cases n) (auto split: if_splits)

lemma new_buffer_bigger:
  fixes nb :: "'a option list"
  assumes "validateCapacityIncrementFactor f = Inr ()" "1 \<le> c" "c \<le> MAX_ARRAY_LENGTH"
    and "new_Array (newCapacity_of c f) = Inr nb"
  shows "c < int (length nb) \<and> int (length nb) \<le> MAX_ARRAY_LENGTH \<and>
         newCapacity_of c f = Finite (of_int (int (length nb)))"
proof -
  note len = new_Array_length[OF assms(4)]
  from factor_valid[OF assms(1)] consider "f = NaN"
    | r where "f = Finite r" "11 / 10 \<le> r" "r \<le> 2"
    by blast
  then show ?thesis
  proof cases
    case 1
    then show ?thesis using assms(4) by (simp add: newCapacity_of_NaN)
  next
    case 2
    from newCapacity_of_bounds[OF assms(2,3) 2(2,3)] obtain n where
      n: "newCapacity_of c (Finite r) = Finite (of_int n)" "c < n"
      by blast
    have "(of_int n :: real) = of_int (int (length nb))" using n(1) len 2(1) by simp
    then have "n = int (length nb)" by (simp only: of_int_eq_iff)
    then show ?thesis using n(2) len by simp
  qed
qed

lemma length_items: "length (items d) = nat (p_size d)"
  by (simp add: items_def length_occupied)

lemma relocate_result:
  assumes "invar d" "nat (p_size d) \<le> n"
  shows "snd (traverseFromFrontToBack d relocate_callback (replicate n None, 0)) =
           (items d @ replicate (n - nat (p_size d)) None, p_size d)"
proof -
  have "traverseFromFrontToBack d relocate_callback (replicate n None, 0) =
        fold relocate_callback (occupied d) (p_cyclicBuffer d, replicate n None, 0)"
    using assms(1) by (intro traverse_occupied) (simp_all add: relocate_callback_length)
  moreover have "snd (fold relocate_callback (occupied d) (p_cyclicBuffer d, replicate n None, 0)) =
     (take (nat 0) (replicate n None) @ map (array_get (p_cyclicBuffer d)) (occupied d)
        @ drop (nat 0 + length (occupied d)) (replicate n None), 0 + int (length (occupied d)))"
    using assms distinct_occupied[OF assms(1)] occupied_in_range[OF assms(1)]
    by (intro fold_relocate_callback) (simp_all add: length_occupied)
  moreover have "0 \<le> p_size d" using assms(1) by (simp add: invar_def)
  ultimately show ?thesis
    by (simp add: items_def length_occupied)
qed

lemma items_relocated:
  assumes "length xs = nat s" "0 \<le> s"
    and "p_cyclicBuffer d' = xs @ replicate m None" "p_frontIndex d' = 0" "p_size d' = s"
  shows "items d' = xs"
proof (rule nth_equalityI)
  show "length (items d') = length xs" using assms by (simp add: length_items)
next
  fix i assume "i < length (items d')"
  then have i: "i < length xs" using assms by (simp add: length_items)
  then have lt: "int i < s" using assms by linarith
  then have "int i < capacity d'" using assms by (simp add: capacity_def)
  then have "int i mod capacity d' = int i" by simp
  then show "items d' ! i = xs ! i"
    using i lt assms by (simp add: items_def occupied_def array_get_def nth_append)
qed

lemma grow_result:
  fixes d :: "'a SlimDeque"
  assumes "invar d"
  shows "increaseCapacityIfNecessary d =
    (if p_size d < capacity d then (Inr (), d)
     else case new_Array (newCapacity_of (capacity d) (p_capacityIncrementFactor d)) of
        Inl e \<Rightarrow> (Inl e, d)
      | Inr (nb :: 'a option list) \<Rightarrow>
          (Inr (), d\<lparr> p_frontIndex := 0,
                      p_cyclicBuffer := items d @ replicate (length nb - nat (p_size d)) None,
                      p_numberOfCapacityIncrements := p_numberOfCapacityIncrements d + 1 \<rparr>))"
proof (cases "p_size d < capacity d")
  case True
  then show ?thesis by (simp add: increaseCapacityIfNecessary_def capacity_def)
next
  case False
  show ?thesis
  proof (cases "new_Array (newCapacity_of (capacity d) (p_capacityIncrementFactor d)) :: error + 'a option list")
    case (Inl e)
    then show ?thesis using False by (simp add: increaseCapacityIfNecessary_def capacity_def)
  next
    case (Inr nb)
    have nb: "nb = replicate (length nb) None" using new_Array_length[OF Inr] by simp
    have "nat (p_size d) \<le> length nb"
      using new_buffer_bigger[OF _ _ _ Inr] assms by (auto simp: invar_def)
    with relocate_result[OF assms, of "length nb"] nb
    have "snd (traverseFromFrontToBack d relocate_callback (nb, 0)) =
           (items d @ replicate (length nb - nat (p_size d)) None, p_size d)"
      by simp
    then show ?thesis
      using False Inr
      by (auto simp add: increaseCapacityIfNecessary_def capacity_def split: prod.splits)
  qed
qed

section \<open>Pushing\<close>

lemma capacity_pos: "invar d \<Longrightarrow> 0 < capacity d"
  by (simp add: invar_def)

lemma mod_capacity_range:
  assumes "invar d"
  shows "0 \<le> x mod capacity d" "x mod capacity d < int (length (p_cyclicBuffer d))"
  using capacity_pos[OF assms] by (simp_all add: capacity_def[symmetric])

lemma grow_ok:
  fixes d :: "'a SlimDeque"
  assumes "invar d" "increaseCapacityIfNecessary d = (Inr u, d1)"
  shows "invar d1 \<and> p_size d1 = p_size d \<and> p_size d1 < capacity d1 \<and> items d1 = items d \<and>
         capacity d \<le> capacity d1 \<and>
         p_capacityIncrementFactor d1 = p_capacityIncrementFactor d"
proof (cases "p_size d < capacity d")
  case True
  then have "d1 = d" using assms by (simp add: grow_result)
  then show ?thesis using True assms by simp
next
  case False
  then obtain nb :: "'a option list" where
    nb: "new_Array (newCapacity_of (capacity d) (p_capacityIncrementFactor d)) = Inr nb"
    and d1: "d1 = d\<lparr> p_frontIndex := 0,
                      p_cyclicBuffer := items d @ replicate (length nb - nat (p_size d)) None,
                      p_numberOfCapacityIncrements := p_numberOfCapacityIncrements d + 1 \<rparr>"
    using assms by (auto simp: grow_result split: sum.splits)
  have big: "capacity d < int (length nb)" "int (length nb) \<le> MAX_ARRAY_LENGTH"
    using new_buffer_bigger[OF _ _ _ nb] assms(1) by (auto simp: invar_def)
  have sz: "0 \<le> p_size d" "p_size d \<le> capacity d" using assms(1) by (auto simp: invar_def)
  have cap: "capacity d1 = int (length nb)"
    using d1 big sz by (simp add: capacity_def length_items)
  have "items d1 = items d"
    using sz d1 by (intro items_relocated[where s = "p_size d"]) (simp_all add: length_items)
  moreover have "invar d1"
    using assms(1) big sz cap unfolding invar_def d1 by auto
  ultimately show ?thesis using d1 cap big sz by simp
qed

lemma grow_fail:
  fixes d :: "'a SlimDeque"
  assumes "invar d" "increaseCapacityIfNecessary d = (Inl e, d1)"
  shows "d1 = d \<and> e = RangeError \<and> p_size d = capacity d"
proof -
  have "\<not> p_size d < capacity d" using assms by (auto simp: grow_result)
  moreover from this have "d1 = d \<and> e = RangeError"
    using assms by (auto simp: grow_result split: sum.splits dest: new_Array_error)
  ultimately show ?thesis using assms(1) by (simp add: invar_def)
qed

lemma raw_pushBack:
  fixes d :: "'a SlimDeque"
  assumes "invar d" "p_size d < capacity d"
    and "d' = d\<lparr> p_cyclicBuffer := array_set (p_cyclicBuffer d) (calculateNewBackIndex d) (Some x),
                  p_size := p_size d + 1 \<rparr>"
  shows "invar d' \<and> items d' = items d @ [Some x] \<and> capacity d' = capacity d"
proof -
  let ?c = "capacity d" and ?f = "p_frontIndex d" and ?s = "p_size d"
  let ?b = "(?f + ?s) mod ?c"
  have inv: "1 \<le> ?c" "0 \<le> ?f" "?f < ?c" "0 \<le> ?s" using assms(1) by (auto simp: invar_def)
  have b: "calculateNewBackIndex d = ?b"
    unfolding calculateNewBackIndex_def capacity_def
    using inv assms(2) by (intro fix_mod) (auto simp: capacity_def)
  have br: "0 \<le> ?b" "?b < int (length (p_cyclicBuffer d))"
    using mod_capacity_range[OF assms(1)] by simp_all
  have cap: "capacity d' = ?c"
    using assms(3) br b by (simp add: capacity_def length_array_set)
  have occ: "occupied d' = occupied d @ [?b]"
    using inv assms(3) cap by (simp add: occupied_def nat_add_distrib)
  have "map (array_get (p_cyclicBuffer d')) (occupied d) = map (array_get (p_cyclicBuffer d)) (occupied d)"
  proof (rule map_cong[OF refl])
    fix i assume "i \<in> set (occupied d)"
    then obtain k where k: "k < nat ?s" "i = (?f + int k) mod ?c" by (auto simp: occupied_def)
    moreover have "int k < ?s" using k inv by linarith
    moreover have "?s - int k < ?c" using assms(2) by linarith
    ultimately have "?b \<noteq> i"
      using mod_neq[of "int k" ?s ?c ?f] by simp
    then show "array_get (p_cyclicBuffer d') i = array_get (p_cyclicBuffer d) i"
      using assms(3) b br by (simp add: array_get_set)
  qed
  moreover have "array_get (p_cyclicBuffer d') ?b = Some x"
    using assms(3) b br by (simp add: array_get_set)
  ultimately have "items d' = items d @ [Some x]"
    by (simp add: items_def occ)
  moreover have "invar d'"
    using assms cap by (simp add: invar_def)
  ultimately show ?thesis using cap by simp
qed

lemma raw_pushFront:
  fixes d :: "'a SlimDeque"
  assumes "invar d" "p_size d < capacity d"
    and "d' = d\<lparr> p_frontIndex := calculateNewFrontIndex d,
                  p_cyclicBuffer := array_set (p_cyclicBuffer d) (calculateNewFrontIndex d) (Some x),
                  p_size := p_size d + 1 \<rparr>"
  shows "invar d' \<and> items d' = Some x # items d \<and> capacity d' = capacity d"
proof -
  let ?c = "capacity d" and ?f = "p_frontIndex d" and ?s = "p_size d"
  let ?b = "(?f - 1) mod ?c"
  have inv: "1 \<le> ?c" "0 \<le> ?f" "?f < ?c" "0 \<le> ?s" using assms(1) by (auto simp: invar_def)
  have b: "calculateNewFrontIndex d = ?b"
    unfolding calculateNewFrontIndex_def capacity_def
    using inv assms(2) by (intro fix_mod) (auto simp: capacity_def)
  have br: "0 \<le> ?b" "?b < int (length (p_cyclicBuffer d))"
    using mod_capacity_range[OF assms(1)] by simp_all
  have cap: "capacity d' = ?c"
    using assms(3) br b by (simp add: capacity_def length_array_set)
  have shift: "(?b + int (Suc k)) mod ?c = (?f + int k) mod ?c" for k
  proof -
    have "(?b + int (Suc k)) mod ?c = (?f - 1 + int (Suc k)) mod ?c"
      by (simp only: mod_add_left_eq)
    then show ?thesis by simp
  qed
  have "[0..<nat (?s + 1)] = 0 # map Suc [0..<nat ?s]"
    using inv by (simp add: nat_add_distrib upt_conv_Cons map_Suc_upt del: upt_Suc)
  then have occ: "occupied d' = ?b # occupied d"
    using inv assms(3) cap b br shift by (simp add: occupied_def comp_def del: upt_Suc)
  have "map (array_get (p_cyclicBuffer d')) (occupied d) = map (array_get (p_cyclicBuffer d)) (occupied d)"
  proof (rule map_cong[OF refl])
    fix i assume "i \<in> set (occupied d)"
    then obtain k where k: "k < nat ?s" "i = (?f + int k) mod ?c" by (auto simp: occupied_def)
    moreover have "int k - (- 1) < ?c" using k assms(2) inv by linarith
    ultimately have "?b \<noteq> i"
      using mod_neq[of "- 1" "int k" ?c ?f] by simp
    then show "array_get (p_cyclicBuffer d') i = array_get (p_cyclicBuffer d) i"
      using assms(3) b br by (simp add: array_get_set)
  qed
  moreover have "array_get (p_cyclicBuffer d') ?b = Some x"
    using assms(3) b br by (simp add: array_get_set)
  ultimately have "items d' = Some x # items d"
    by (simp add: items_def occ)
  moreover have "invar d'"
    using assms cap b br by (simp add: invar_def capacity_def)
  ultimately show ?thesis using cap by simp
qed

section \<open>Popping\<close>

lemma popFront_ok:
  fixes d :: "'a SlimDeque"
  assumes "invar d" "p_size d \<noteq> 0"
  shows "fst (popFront d) = Inr (hd (items d)) \<and> invar (snd (popFront d)) \<and>
         items (snd (popFront d)) = tl (items d) \<and>
         p_cyclicBuffer (snd (popFront d)) = array_set (p_cyclicBuffer d) (p_frontIndex d) None \<and>
         p_frontIndex (snd (popFront d)) = (p_frontIndex d + 1) mod capacity d \<and>
         p_size (snd (popFront d)) = p_size d - 1 \<and>
         p_numberOfCapacityIncrements (snd (popFront d)) = p_numberOfCapacityIncrements d \<and>
         p_capacityIncrementFactor (snd (popFront d)) = p_capacityIncrementFactor d"
proof -
  let ?c = "capacity d" and ?f = "p_frontIndex d" and ?s = "p_size d"
  let ?f' = "(?f + 1) mod ?c"
  let ?buf = "array_set (p_cyclicBuffer d) ?f None"
  define d' where "d' = d\<lparr> p_cyclicBuffer := ?buf, p_frontIndex := ?f', p_size := ?s - 1 \<rparr>"
  have inv: "1 \<le> ?c" "0 \<le> ?f" "?f < ?c" "0 < ?s" "?s \<le> ?c" using assms by (auto simp: invar_def)
  have fr: "0 \<le> ?f" "?f < int (length (p_cyclicBuffer d))" using inv by (simp_all add: capacity_def)
  have len: "int (length ?buf) = ?c" using fr by (simp add: length_array_set capacity_def)
  have f': "(if ?f + 1 = int (length ?buf) then 0 else ?f + 1) = ?f'"
    using inv len by auto
  have pop: "popFront d = (Inr (array_get (p_cyclicBuffer d) ?f), d')"
    using assms(2) f' by (simp add: popFront_def d'_def Let_def)
  have cap: "capacity d' = ?c" using len by (simp add: d'_def capacity_def)
  have shift: "(?f + int (Suc k)) mod ?c = (?f' + int k) mod ?c" for k
  proof -
    have "(?f' + int k) mod ?c = (?f + 1 + int k) mod ?c" by (simp only: mod_add_left_eq)
    also have "?f + 1 + int k = ?f + int (Suc k)" by simp
    finally show ?thesis by (rule sym)
  qed
  have "[0..<nat ?s] = 0 # map Suc [0..<nat (?s - 1)]"
    using inv by (simp add: nat_diff_distrib upt_conv_Cons map_Suc_upt del: upt_Suc)
  then have occ: "occupied d = ?f # occupied d'"
    using inv cap shift by (simp add: occupied_def comp_def d'_def del: upt_Suc)
  then have notin: "?f \<notin> set (occupied d')"
    using distinct_occupied[OF assms(1)] by simp
  have "map (array_get ?buf) (occupied d') = map (array_get (p_cyclicBuffer d)) (occupied d')"
  proof (rule map_cong[OF refl])
    fix i assume "i \<in> set (occupied d')"
    then have "i \<noteq> ?f" using notin by auto
    then show "array_get ?buf i = array_get (p_cyclicBuffer d) i"
      using fr by (simp add: array_get_set)
  qed
  then have it: "items d = array_get (p_cyclicBuffer d) ?f # items d'"
    by (simp add: items_def occ) (simp add: d'_def)
  have fr': "0 \<le> ?f'" "?f' < ?c" using capacity_pos[OF assms(1)] by simp_all
  have "invar d'"
    unfolding invar_def cap using assms(1) inv fr' by (simp add: d'_def invar_def)
  then show ?thesis
    using pop it by (simp add: d'_def)
qed

lemma popBack_ok:
  fixes d :: "'a SlimDeque"
  assumes "invar d" "p_size d \<noteq> 0"
  shows "fst (popBack d) = Inr (last (items d)) \<and> invar (snd (popBack d)) \<and>
         items (snd (popBack d)) = butlast (items d) \<and>
         capacity (snd (popBack d)) = capacity d \<and>
         p_frontIndex (snd (popBack d)) = p_frontIndex d \<and>
         p_size (snd (popBack d)) = p_size d - 1 \<and>
         p_numberOfCapacityIncrements (snd (popBack d)) = p_numberOfCapacityIncrements d \<and>
         p_capacityIncrementFactor (snd (popBack d)) = p_capacityIncrementFactor d"
proof -
  let ?c = "capacity d" and ?f = "p_frontIndex d" and ?s = "p_size d"
  let ?b = "(?f + ?s - 1) mod ?c"
  let ?buf = "array_set (p_cyclicBuffer d) ?b None"
  define d' where "d' = d\<lparr> p_cyclicBuffer := ?buf, p_size := ?s - 1 \<rparr>"
  have inv: "1 \<le> ?c" "0 \<le> ?f" "?f < ?c" "0 < ?s" "?s \<le> ?c" using assms by (auto simp: invar_def)
  have b: "calculateCurrentBackIndex d = ?b"
    unfolding calculateCurrentBackIndex_def capacity_def
    using inv by (intro fix_mod) (auto simp: capacity_def)
  have br: "0 \<le> ?b" "?b < int (length (p_cyclicBuffer d))"
    using mod_capacity_range[OF assms(1)] by simp_all
  have pop: "popBack d = (Inr (array_get (p_cyclicBuffer d) ?b), d')"
    using assms(2) b by (simp add: popBack_def d'_def Let_def)
  have cap: "capacity d' = ?c" using br by (simp add: d'_def capacity_def length_array_set)
  define g where "g = (\<lambda>k. (?f + int k) mod ?c)"
  have "nat ?s = Suc (nat (?s - 1))" using inv by simp
  then have "[0..<nat ?s] = [0..<nat (?s - 1)] @ [nat (?s - 1)]" by simp
  then have "occupied d = map g [0..<nat (?s - 1)] @ [g (nat (?s - 1))]"
    by (simp add: occupied_def g_def)
  moreover have "?f + int (nat (?s - 1)) = ?f + ?s - 1" using inv by simp
  then have "g (nat (?s - 1)) = ?b" by (simp only: g_def)
  moreover have "occupied d' = map g [0..<nat (?s - 1)]"
    unfolding occupied_def cap g_def by (simp add: d'_def)
  ultimately have occ: "occupied d = occupied d' @ [?b]"
    by simp
  then have notin: "?b \<notin> set (occupied d')"
    using distinct_occupied[OF assms(1)] by simp
  have "map (array_get ?buf) (occupied d') = map (array_get (p_cyclicBuffer d)) (occupied d')"
  proof (rule map_cong[OF refl])
    fix i assume "i \<in> set (occupied d')"
    then have "i \<noteq> ?b" using notin by auto
    then show "array_get ?buf i = array_get (p_cyclicBuffer d) i"
      using br by (simp add: array_get_set)
  qed
  then have it: "items d = items d' @ [array_get (p_cyclicBuffer d) ?b]"
    by (simp add: items_def occ) (simp add: d'_def)
  have "invar d'"
    unfolding invar_def cap using assms(1) inv by (simp add: d'_def invar_def)
  then show ?thesis
    using pop it cap by (simp add: d'_def)
qed

lemma pop_empty:
  "p_size d = 0 \<Longrightarrow> popFront d = (Inl EmptyCollection, d) \<and> popBack d = (Inl EmptyCollection, d)"
  by (simp add: popFront_def popBack_def)

lemma pushBack_ok:
  fixes d :: "'a SlimDeque"
  assumes "invar d" "pushBack d x = (Inr u, d')"
  shows "invar d' \<and> items d' = items d @ [Some x] \<and> p_size d' = p_size d + 1 \<and>
         capacity d \<le> capacity d' \<and>
         p_capacityIncrementFactor d' = p_capacityIncrementFactor d"
proof -
  obtain r d1 where g: "increaseCapacityIfNecessary d = (r, d1)" by force
  with assms(2) obtain v where r: "r = Inr v" by (cases r) (auto simp: pushBack_def)
  note ok = grow_ok[OF assms(1) g[unfolded r]]
  have d': "d' = d1\<lparr> p_cyclicBuffer := array_set (p_cyclicBuffer d1) (calculateNewBackIndex d1) (Some x),
                  p_size := p_size d1 + 1 \<rparr>"
    using assms(2) g r by (simp add: pushBack_def Let_def)
  have "invar d' \<and> items d' = items d1 @ [Some x] \<and> capacity d' = capacity d1"
    using ok d' by (intro raw_pushBack) auto
  then show ?thesis using ok d' by simp
qed

section \<open>Failing pushes, and clear\<close>

lemma pushFront_ok:
  fixes d :: "'a SlimDeque"
  assumes "invar d" "pushFront d x = (Inr u, d')"
  shows "invar d' \<and> items d' = Some x # items d \<and> p_size d' = p_size d + 1 \<and>
         capacity d \<le> capacity d' \<and>
         p_capacityIncrementFactor d' = p_capacityIncrementFactor d"
proof -
  obtain r d1 where g: "increaseCapacityIfNecessary d = (r, d1)" by force
  with assms(2) obtain v where r: "r = Inr v" by (cases r) (auto simp: pushFront_def)
  note ok = grow_ok[OF assms(1) g[unfolded r]]
  have d': "d' = d1\<lparr> p_frontIndex := calculateNewFrontIndex d1,
                  p_cyclicBuffer := array_set (p_cyclicBuffer d1) (calculateNewFrontIndex d1) (Some x),
                  p_size := p_size d1 + 1 \<rparr>"
    using assms(2) g r by (simp add: pushFront_def Let_def)
  have "invar d' \<and> items d' = Some x # items d1 \<and> capacity d' = capacity d1"
    using ok d' by (intro raw_pushFront) auto
  then show ?thesis using ok d' by simp
qed

lemma push_fail:
  fixes d :: "'a SlimDeque"
  assumes "invar d" "pushBack d x = (Inl e, d') \<or> pushFront d x = (Inl e, d')"
  shows "d' = d \<and> e = RangeError \<and> p_size d = capacity d"
proof -
  obtain r d1 where g: "increaseCapacityIfNecessary d = (r, d1)" by force
  with assms(2) have "r = Inl e \<and> d1 = d'"
    by (cases r) (auto simp: pushBack_def pushFront_def Let_def)
  then show ?thesis using grow_fail[OF assms(1)] g by simp
qed

lemma grown_capacity_gt:
  assumes "invar d" "newCapacity_of (capacity d) (p_capacityIncrementFactor d) = Finite (of_int n)"
  shows "capacity d < n"
proof -
  have v: "validateCapacityIncrementFactor (p_capacityIncrementFactor d) = Inr ()"
    and c: "1 \<le> capacity d" "capacity d \<le> MAX_ARRAY_LENGTH"
    using assms(1) by (simp_all add: invar_def)
  from factor_valid[OF v] consider "p_capacityIncrementFactor d = NaN"
    | r where "p_capacityIncrementFactor d = Finite r" "11 / 10 \<le> r" "r \<le> 2"
    by blast
  then show ?thesis
  proof cases
    case 1
    then show ?thesis using assms(2) by (simp add: newCapacity_of_NaN)
  next
    case 2
    from newCapacity_of_bounds[OF c 2(2,3)] obtain m where
      m: "newCapacity_of (capacity d) (Finite r) = Finite (of_int m)" "capacity d < m"
      by blast
    have "(of_int m :: real) = of_int n" using m(1) assms(2) 2(1) by simp
    then have "m = n" by (simp only: of_int_eq_iff)
    then show ?thesis using m(2) by simp
  qed
qed

lemma grow_succeeds:
  fixes d :: "'a SlimDeque"
  assumes "invar d"
    "newCapacity_of (capacity d) (p_capacityIncrementFactor d) = Finite (of_int n)"
    "n \<le> MAX_ARRAY_LENGTH"
  shows "fst (increaseCapacityIfNecessary d) = Inr ()"
proof -
  have "1 \<le> capacity d" using assms(1) by (simp add: invar_def)
  then have "0 \<le> n" using grown_capacity_gt[OF assms(1,2)] by linarith
  then have "new_Array (newCapacity_of (capacity d) (p_capacityIncrementFactor d)) =
     (Inr (replicate (nat n) None) :: error + 'a option list)"
    using assms(3) by (simp only: assms(2) new_Array_of_int) simp
  then show ?thesis
    by (simp add: grow_result[OF assms(1)])
qed

lemma push_succeeds:
  fixes d :: "'a SlimDeque"
  assumes "fst (increaseCapacityIfNecessary d) = Inr ()"
  shows "fst (pushBack d x) = Inr () \<and> fst (pushFront d x) = Inr ()"
proof -
  obtain d1 where "increaseCapacityIfNecessary d = (Inr (), d1)"
    using assms by (cases "increaseCapacityIfNecessary d") auto
  then show ?thesis by (simp add: pushBack_def pushFront_def Let_def)
qed

lemma no_growth_needed:
  "p_size d < capacity d \<Longrightarrow> increaseCapacityIfNecessary d = (Inr (), d)"
  by (simp add: increaseCapacityIfNecessary_def capacity_def)

lemma clear_loop_terminates:
  fixes d :: "'a SlimDeque"
  assumes "invar d" "n = nat (p_size d)"
  shows "clear_loop d = Some (popFront_repeat n d) \<and> invar (popFront_repeat n d) \<and>
         p_size (popFront_repeat n d) = 0 \<and>
         capacity (popFront_repeat n d) = capacity d \<and>
         p_numberOfCapacityIncrements (popFront_repeat n d) = p_numberOfCapacityIncrements d \<and>
         p_capacityIncrementFactor (popFront_repeat n d) = p_capacityIncrementFactor d"
  using assms
proof (induction n arbitrary: d)
  case 0
  then have "p_size d = 0" by (simp add: invar_def)
  then show ?case using 0 by (subst clear_loop.simps) (simp add: isEmpty_def)
next
  case (Suc n)
  let ?d = "snd (popFront d)"
  have ne: "p_size d \<noteq> 0" using Suc.prems by auto
  note pf = popFront_ok[OF Suc.prems(1) ne]
  have cap: "capacity ?d = capacity d"
    using pf Suc.prems(1) by (simp add: capacity_def invar_def length_array_set)
  have "n = nat (p_size ?d)" using pf Suc.prems by simp
  with pf have IH: "clear_loop ?d = Some (popFront_repeat n ?d) \<and> invar (popFront_repeat n ?d) \<and>
         p_size (popFront_repeat n ?d) = 0 \<and>
         capacity (popFront_repeat n ?d) = capacity ?d \<and>
         p_numberOfCapacityIncrements (popFront_repeat n ?d) = p_numberOfCapacityIncrements ?d \<and>
         p_capacityIncrementFactor (popFront_repeat n ?d) = p_capacityIncrementFactor ?d"
    by (intro Suc.IH) simp_all
  have "clear_loop d = clear_loop ?d"
    using ne by (subst clear_loop.simps) (simp add: isEmpty_def)
  then show ?case using IH pf cap by simp
qed

lemma clear_ok:
  fixes d :: "'a SlimDeque"
  assumes "invar d"
  shows "clear d = Some (clear_spec d) \<and> invar (clear_spec d) \<and> p_size (clear_spec d) = 0 \<and>
         p_frontIndex (clear_spec d) = 0 \<and> capacity (clear_spec d) = capacity d \<and>
         p_numberOfCapacityIncrements (clear_spec d) = p_numberOfCapacityIncrements d \<and>
         p_capacityIncrementFactor (clear_spec d) = p_capacityIncrementFactor d \<and>
         items (clear_spec d) = []"
proof -
  note t = clear_loop_terminates[OF assms refl]
  let ?e = "popFront_repeat (nat (p_size d)) d"
  have c: "capacity (clear_spec d) = capacity ?e"
    by (simp add: clear_spec_def capacity_def)
  have e: "invar ?e" "p_size ?e = 0" using t by simp_all
  have "invar (clear_spec d)"
    unfolding invar_def c using e(1) capacity_pos[OF e(1)] by (simp add: clear_spec_def invar_def)
  moreover have "items (clear_spec d) = []"
    using t by (simp add: clear_spec_def items_def occupied_def)
  ultimately show ?thesis
    using t by (simp add: clear_def clear_spec_def capacity_def)
qed

section \<open>Sequences of calls against the reference deque\<close>

lemma isNaturalNumber_of_int: "isNaturalNumber (Finite (of_int n)) \<longleftrightarrow> 1 \<le> n"
  by (auto simp: isNaturalNumber_def js_ge_def)

lemma SlimDeque_new_ok:
  fixes d0 :: "'a SlimDeque"
  assumes "SlimDeque_new initialCapacity factor = Inr d0"
  shows "invar d0 \<and> items d0 = [] \<and> p_size d0 = 0 \<and> p_frontIndex d0 = 0 \<and>
         p_numberOfCapacityIncrements d0 = 0 \<and> initialCapacity = Finite (of_int (capacity d0)) \<and>
         p_capacityIncrementFactor d0 = factor"
proof -
  from assms obtain buffer :: "'a option list" where
    nat: "isNaturalNumber initialCapacity"
    and val: "validateCapacityIncrementFactor factor = Inr ()"
    and buf: "new_Array initialCapacity = Inr buffer"
    and d0: "d0 = \<lparr> p_cyclicBuffer = buffer, p_frontIndex = 0, p_size = 0,
                    p_numberOfCapacityIncrements = 0, p_capacityIncrementFactor = factor \<rparr>"
    by (auto simp: SlimDeque_new_def split: if_splits sum.splits)
  note len = new_Array_length[OF buf]
  from len have ic: "initialCapacity = Finite (of_int (int (length buffer)))" by (rule conjunct1)
  have "1 \<le> int (length buffer)" using nat unfolding ic by (simp only: isNaturalNumber_of_int)
  moreover have "int (length buffer) \<le> MAX_ARRAY_LENGTH" using len by simp
  ultimately have "invar d0" using val by (auto simp: invar_def capacity_def d0)
  moreover have "items d0 = []" by (simp add: items_def occupied_def d0)
  ultimately show ?thesis using len by (simp add: d0 capacity_def)
qed

lemma stores_length: "stores d xs \<Longrightarrow> int (length xs) = p_size d"
proof -
  assume s: "stores d xs"
  then have "length (items d) = length xs" by (simp add: stores_def)
  moreover have "0 \<le> p_size d" using s by (simp add: stores_def invar_def)
  ultimately show ?thesis by (simp add: length_items)
qed

lemma apply_op_step:
  fixes d :: "'a SlimDeque"
  assumes "stores d xs"
  shows "\<exists>r d' ys. apply_op d op = Some (r, d') \<and> stores d' ys \<and> capacity d \<le> capacity d' \<and>
           p_size d' \<le> p_size d + 1 \<and>
           p_capacityIncrementFactor d' = p_capacityIncrementFactor d \<and>
           (r = Inl RangeError \<longrightarrow> d' = d) \<and>
           (r \<noteq> Inl RangeError \<longrightarrow> ys = ref_apply xs op)"
proof -
  have inv: "invar d" and it: "items d = map Some xs" using assms by (simp_all add: stores_def)
  note len = stores_length[OF assms]
  show ?thesis
  proof (cases op)
    case (PushFront x)
    obtain r0 d' where p: "pushFront d x = (r0, d')" by force
    show ?thesis
    proof (cases r0)
      case (Inl e)
      then have "d' = d \<and> e = RangeError" using push_fail[OF inv, of x e d'] p by simp
      then show ?thesis using PushFront p Inl assms by auto
    next
      case (Inr u)
      then have "stores d' (x # xs) \<and> capacity d \<le> capacity d' \<and> p_size d' = p_size d + 1 \<and>
          p_capacityIncrementFactor d' = p_capacityIncrementFactor d"
        using pushFront_ok[OF inv, of x u d'] p it by (simp add: stores_def)
      then show ?thesis using PushFront p Inr by auto
    qed
  next
    case (PushBack x)
    obtain r0 d' where p: "pushBack d x = (r0, d')" by force
    show ?thesis
    proof (cases r0)
      case (Inl e)
      then have "d' = d \<and> e = RangeError" using push_fail[OF inv, of x e d'] p by simp
      then show ?thesis using PushBack p Inl assms by auto
    next
      case (Inr u)
      then have "stores d' (xs @ [x]) \<and> capacity d \<le> capacity d' \<and> p_size d' = p_size d + 1 \<and>
          p_capacityIncrementFactor d' = p_capacityIncrementFactor d"
        using pushBack_ok[OF inv, of x u d'] p it by (simp add: stores_def)
      then show ?thesis using PushBack p Inr by auto
    qed
  next
    case PopFront
    show ?thesis
    proof (cases "p_size d = 0")
      case True
      then have "xs = []" using len by simp
      then show ?thesis using PopFront True assms pop_empty[OF True] by auto
    next
      case False
      note pf = popFront_ok[OF inv False]
      have "capacity (snd (popFront d)) = capacity d"
        using pf inv by (simp add: capacity_def invar_def length_array_set)
      moreover have "stores (snd (popFront d)) (tl xs)"
        using pf it by (simp add: stores_def map_tl)
      ultimately show ?thesis
        using PopFront pf by (cases "popFront d") auto
    qed
  next
    case PopBack
    show ?thesis
    proof (cases "p_size d = 0")
      case True
      then have "xs = []" using len by simp
      then show ?thesis using PopBack True assms pop_empty[OF True] by auto
    next
      case False
      note pb = popBack_ok[OF inv False]
      have "stores (snd (popBack d)) (butlast xs)"
        using pb it by (simp add: stores_def map_butlast)
      then show ?thesis
        using PopBack pb by (cases "popBack d") auto
    qed
  next
    case Clear
    note c = clear_ok[OF inv]
    have "stores (clear_spec d) []" using c by (simp add: stores_def)
    moreover have "p_size (clear_spec d) \<le> p_size d + 1" using c inv by (simp add: invar_def)
    ultimately show ?thesis using Clear c by auto
  qed
qed

lemma run_stores:
  fixes d :: "'a SlimDeque"
  assumes "stores d xs"
  shows "\<exists>rs d' ys. run d ops = Some (rs, d') \<and> stores d' ys \<and> capacity d \<le> capacity d' \<and>
           length rs = length ops \<and>
           p_capacityIncrementFactor d' = p_capacityIncrementFactor d \<and>
           (Inl RangeError \<notin> set rs \<longrightarrow> ys = ref_run xs ops)"
  using assms
proof (induction ops arbitrary: d xs)
  case Nil
  then show ?case by (auto simp: ref_run_def)
next
  case (Cons op ops)
  from apply_op_step[OF Cons.prems, of op] obtain r d1 ys where
    st: "apply_op d op = Some (r, d1)" "stores d1 ys" "capacity d \<le> capacity d1"
      "p_capacityIncrementFactor d1 = p_capacityIncrementFactor d"
      "r \<noteq> Inl RangeError \<longrightarrow> ys = ref_apply xs op"
    by blast
  from Cons.IH[OF st(2)] obtain rs d' zs where
    r: "run d1 ops = Some (rs, d')" "stores d' zs" "capacity d1 \<le> capacity d'"
       "length rs = length ops" "p_capacityIncrementFactor d' = p_capacityIncrementFactor d1"
       "Inl RangeError \<notin> set rs \<longrightarrow> zs = ref_run ys ops"
    by blast
  have "run d (op # ops) = Some (r # rs, d')" using st(1) r(1) by simp
  moreover have "Inl RangeError \<notin> set (r # rs) \<longrightarrow> zs = ref_run xs (op # ops)"
    using st(5) r(6) by (auto simp: ref_run_def)
  ultimately show ?case using st r by auto
qed

section \<open>Calls on an empty deque and on a deque of one item\<close>

text \<open>
  C6. On a deque with \<^verbatim>\<open>size == 0\<close> each of \<^verbatim>\<open>front\<close>, \<^verbatim>\<open>back\<close>, \<^verbatim>\<open>popFront\<close> and
  \<^verbatim>\<open>popBack\<close> throws the error of an empty collection, and the deque after the failed
  \<^verbatim>\<open>popFront\<close> or \<^verbatim>\<open>popBack\<close> is the deque before it, field by field (the two
  getters have no assignment at all, so they are functions of the deque alone).
\<close>

theorem empty_deque_calls_fail:
  "size_of d = 0 \<Longrightarrow>
     front d = Inl EmptyCollection \<and> back_of d = Inl EmptyCollection \<and>
     popFront d = (Inl EmptyCollection, d) \<and> popBack d = (Inl EmptyCollection, d)"
  by (simp add: size_of_def front_def back_of_def popFront_def popBack_def)

theorem empty_deque_calls_fail_witness:
  "let d = \<lparr> p_cyclicBuffer = [None, Some (7::nat), None], p_frontIndex = 2, p_size = 0,
              p_numberOfCapacityIncrements = 3, p_capacityIncrementFactor = Finite (3 / 2) \<rparr>
   in size_of d = 0 \<and>
      front d = Inl EmptyCollection \<and> back_of d = Inl EmptyCollection \<and>
      popFront d = (Inl EmptyCollection, d) \<and> popBack d = (Inl EmptyCollection, d)"
proof -
  let ?d = "\<lparr> p_cyclicBuffer = [None, Some (7::nat), None], p_frontIndex = 2, p_size = 0,
             p_numberOfCapacityIncrements = 3, p_capacityIncrementFactor = Finite (3 / 2) \<rparr>"
  have h: "size_of ?d = 0" by (simp add: size_of_def)
  show ?thesis
    unfolding Let_def using h empty_deque_calls_fail[OF h] by blast
qed

text \<open>
  C10. On a deque with exactly one item the getters \<^verbatim>\<open>front\<close> and \<^verbatim>\<open>back\<close> return the
  same item, \<^verbatim>\<open>popFront\<close> returns the item \<^verbatim>\<open>popBack\<close> would return, which is that
  item again, and either call leaves the deque empty.
\<close>

theorem single_item_front_is_back:
  fixes d :: "'a SlimDeque"
  assumes "invar d" "size_of d = 1"
  shows "front d = back_of d \<and> fst (popFront d) = fst (popBack d) \<and> fst (popFront d) = front d \<and>
         front d = Inr (hd (items d)) \<and>
         isEmpty (snd (popFront d)) \<and> isEmpty (snd (popBack d))"
proof -
  have s: "p_size d = 1" "p_size d \<noteq> 0" using assms(2) by (simp_all add: size_of_def)
  have fr: "0 \<le> p_frontIndex d" "p_frontIndex d < int (length (p_cyclicBuffer d))"
    using assms(1) by (simp_all add: invar_def capacity_def)
  then have b: "calculateCurrentBackIndex d = p_frontIndex d"
    using s by (simp add: calculateCurrentBackIndex_def fixIndexIfNecessary_def)
  have "length (items d) = 1" using s by (simp add: length_items)
  then obtain y where y: "items d = [y]" by (cases "items d") auto
  have f: "front d = Inr (hd (items d))"
    using popFront_ok[OF assms(1) s(2)] s by (simp add: front_def popFront_def Let_def)
  have "back_of d = front d" using s b by (simp add: back_of_def front_def)
  moreover have "fst (popBack d) = front d \<and> fst (popFront d) = front d"
    using s b by (simp add: popBack_def popFront_def front_def Let_def)
  moreover have "isEmpty (snd (popFront d)) \<and> isEmpty (snd (popBack d))"
    using s by (simp add: popBack_def popFront_def isEmpty_def Let_def)
  ultimately show ?thesis using f by simp
qed

theorem single_item_front_is_back_witness:
  "let d = \<lparr> p_cyclicBuffer = [None, None, Some (7::nat)], p_frontIndex = 2, p_size = 1,
              p_numberOfCapacityIncrements = 0, p_capacityIncrementFactor = Finite (3 / 2) \<rparr>
   in invar d \<and> size_of d = 1 \<and> back_of d = Inr (Some 7) \<and>
      fst (popFront d) = fst (popBack d) \<and> fst (popFront d) = front d \<and>
      isEmpty (snd (popFront d)) \<and> isEmpty (snd (popBack d))"
proof -
  let ?d = "\<lparr> p_cyclicBuffer = [None, None, Some (7::nat)], p_frontIndex = 2, p_size = 1,
           p_numberOfCapacityIncrements = 0, p_capacityIncrementFactor = Finite (3 / 2) \<rparr>"
  have h1: "invar ?d"
    by code_simp
  have h2: "size_of ?d = 1" by (simp add: size_of_def)
  have fr: "front ?d = Inr (Some 7)" by (simp add: front_def array_get_def)
  show ?thesis
    unfolding Let_def using h1 h2 fr single_item_front_is_back[OF h1 h2] by metis
qed

section \<open>Relocation at growth\<close>

lemma grow_shape:
  fixes d :: "'a SlimDeque"
  assumes "invar d" "p_size d = capacity d" "increaseCapacityIfNecessary d = (Inr u, d')"
  shows "\<exists>n. capacity d < n \<and> n \<le> MAX_ARRAY_LENGTH \<and>
           newCapacity_of (capacity d) (p_capacityIncrementFactor d) = Finite (of_int n) \<and>
           d' = d\<lparr> p_frontIndex := 0,
                    p_cyclicBuffer := items d @ replicate (nat n - nat (p_size d)) None,
                    p_numberOfCapacityIncrements := p_numberOfCapacityIncrements d + 1 \<rparr>"
proof -
  obtain nb :: "'a option list" where
    nb: "new_Array (newCapacity_of (capacity d) (p_capacityIncrementFactor d)) = Inr nb"
    and d': "d' = d\<lparr> p_frontIndex := 0,
                      p_cyclicBuffer := items d @ replicate (length nb - nat (p_size d)) None,
                      p_numberOfCapacityIncrements := p_numberOfCapacityIncrements d + 1 \<rparr>"
    using assms by (auto simp: grow_result split: sum.splits)
  have "capacity d < int (length nb) \<and> int (length nb) \<le> MAX_ARRAY_LENGTH \<and>
        newCapacity_of (capacity d) (p_capacityIncrementFactor d) = Finite (of_int (int (length nb)))"
    using assms(1) by (intro new_buffer_bigger[OF _ _ _ nb]) (simp_all add: invar_def)
  then show ?thesis using d' by (intro exI[of _ "int (length nb)"]) simp
qed

lemma grow_Finite:
  fixes d :: "'a SlimDeque"
  assumes "invar d" "p_size d = capacity d"
    "newCapacity_of (capacity d) (p_capacityIncrementFactor d) = Finite (of_int n)"
    "n \<le> MAX_ARRAY_LENGTH"
  shows "increaseCapacityIfNecessary d =
     (Inr (), d\<lparr> p_frontIndex := 0,
                 p_cyclicBuffer := items d @ replicate (nat n - nat (p_size d)) None,
                 p_numberOfCapacityIncrements := p_numberOfCapacityIncrements d + 1 \<rparr>)"
proof -
  obtain d' where g: "increaseCapacityIfNecessary d = (Inr (), d')"
    using grow_succeeds[OF assms(1,3,4)] by (cases "increaseCapacityIfNecessary d") auto
  from grow_shape[OF assms(1,2) g] obtain m where
    m: "newCapacity_of (capacity d) (p_capacityIncrementFactor d) = Finite (of_int m)"
    and d': "d' = d\<lparr> p_frontIndex := 0,
                    p_cyclicBuffer := items d @ replicate (nat m - nat (p_size d)) None,
                    p_numberOfCapacityIncrements := p_numberOfCapacityIncrements d + 1 \<rparr>"
    by blast
  have "(of_int m :: real) = of_int n" using m assms(3) by simp
  then have "m = n" by (simp only: of_int_eq_iff)
  then show ?thesis using g d' by simp
qed

lemma push_after_growth:
  fixes d :: "'a SlimDeque"
  assumes "invar d" "increaseCapacityIfNecessary d = (Inr u, d1)"
  shows "fst (pushBack d x) = Inr () \<and> capacity (snd (pushBack d x)) = capacity d1 \<and>
         p_numberOfCapacityIncrements (snd (pushBack d x)) = p_numberOfCapacityIncrements d1 \<and>
         fst (pushFront d x) = Inr () \<and> capacity (snd (pushFront d x)) = capacity d1 \<and>
         p_numberOfCapacityIncrements (snd (pushFront d x)) = p_numberOfCapacityIncrements d1"
proof -
  note ok = grow_ok[OF assms]
  let ?b = "d1\<lparr> p_cyclicBuffer := array_set (p_cyclicBuffer d1) (calculateNewBackIndex d1) (Some x),
                  p_size := p_size d1 + 1 \<rparr>"
  let ?f = "d1\<lparr> p_frontIndex := calculateNewFrontIndex d1,
                  p_cyclicBuffer := array_set (p_cyclicBuffer d1) (calculateNewFrontIndex d1) (Some x),
                  p_size := p_size d1 + 1 \<rparr>"
  have "pushBack d x = (Inr (), ?b)" using assms(2) by (simp add: pushBack_def Let_def)
  moreover have "capacity ?b = capacity d1" using ok by (intro conjunct2[OF conjunct2[OF raw_pushBack]]) auto
  moreover have "pushFront d x = (Inr (), ?f)" using assms(2) by (simp add: pushFront_def Let_def)
  moreover have "capacity ?f = capacity d1" using ok by (intro conjunct2[OF conjunct2[OF raw_pushFront]]) auto
  ultimately show ?thesis by simp
qed

text \<open>
  C4. Whenever the buffer grows, the front index is 0 afterwards, the items of the
  occupied region stand in slots \<open>0\<close> to \<open>size - 1\<close> of the new buffer in their order from
  front to back (slot \<open>k\<close> holds what slot \<open>(frontIndex + k) mod capacity\<close> of the old buffer
  held), the other slots are empty, and the size and the snapshot are what they were.
\<close>

theorem growth_relocates:
  fixes d :: "'a SlimDeque"
  assumes "invar d" "size_of d = capacity d" "increaseCapacityIfNecessary d = (Inr u, d')"
  shows "p_frontIndex d' = 0 \<and> size_of d' = size_of d \<and>
         (\<forall>k < nat (size_of d). p_cyclicBuffer d' ! k =
             array_get (p_cyclicBuffer d) ((p_frontIndex d + int k) mod capacity d)) \<and>
         (\<forall>k. nat (size_of d) \<le> k \<and> k < length (p_cyclicBuffer d') \<longrightarrow> p_cyclicBuffer d' ! k = None) \<and>
         getSnapshot d' = getSnapshot d"
proof -
  have s: "p_size d = capacity d" using assms(2) by (simp add: size_of_def)
  from grow_shape[OF assms(1) s assms(3)] obtain n where
    d': "d' = d\<lparr> p_frontIndex := 0,
                    p_cyclicBuffer := items d @ replicate (nat n - nat (p_size d)) None,
                    p_numberOfCapacityIncrements := p_numberOfCapacityIncrements d + 1 \<rparr>"
    by blast
  note ok = grow_ok[OF assms(1,3)]
  have "p_cyclicBuffer d' ! k =
          array_get (p_cyclicBuffer d) ((p_frontIndex d + int k) mod capacity d)"
    if "k < nat (size_of d)" for k
    using that by (simp add: d' nth_append length_items size_of_def items_def occupied_def)
  moreover have "p_cyclicBuffer d' ! k = None"
    if "nat (size_of d) \<le> k \<and> k < length (p_cyclicBuffer d')" for k
  proof -
    have "k - nat (p_size d) < nat n - nat (p_size d)"
      using that by (simp add: d' length_items size_of_def) linarith
    then have "replicate (nat n - nat (p_size d)) (None :: 'a option) ! (k - nat (p_size d)) = None"
      by (rule nth_replicate)
    then show ?thesis using that by (simp add: d' nth_append length_items size_of_def)
  qed
  moreover have "getSnapshot d' = getSnapshot d"
    using ok assms(1) by (simp add: getSnapshot_items)
  ultimately show ?thesis by (simp add: d' size_of_def)
qed

theorem growth_relocates_witness:
  "let d = \<lparr> p_cyclicBuffer = [Some (30::nat), Some 10, Some 20], p_frontIndex = 1, p_size = 3,
              p_numberOfCapacityIncrements = 0, p_capacityIncrementFactor = Finite (3 / 2) \<rparr>;
       d' = \<lparr> p_cyclicBuffer = [Some 10, Some 20, Some 30, None, None], p_frontIndex = 0, p_size = 3,
               p_numberOfCapacityIncrements = 1, p_capacityIncrementFactor = Finite (3 / 2) \<rparr>
   in invar d \<and> size_of d = capacity d \<and> increaseCapacityIfNecessary d = (Inr (), d') \<and>
      p_frontIndex d' = 0 \<and> size_of d' = size_of d \<and>
      (1::nat) < nat (size_of d) \<and>
      p_cyclicBuffer d' ! 1 = array_get (p_cyclicBuffer d) ((p_frontIndex d + int 1) mod capacity d) \<and>
      nat (size_of d) \<le> 3 \<and> (3::nat) < length (p_cyclicBuffer d') \<and> p_cyclicBuffer d' ! 3 = None \<and>
      getSnapshot d = Inr [Some 10, Some 20, Some 30] \<and> getSnapshot d' = getSnapshot d"
proof -
  let ?d = "\<lparr> p_cyclicBuffer = [Some (30::nat), Some 10, Some 20], p_frontIndex = 1, p_size = 3,
              p_numberOfCapacityIncrements = 0, p_capacityIncrementFactor = Finite (3 / 2) \<rparr>"
  let ?d' = "\<lparr> p_cyclicBuffer = [Some (10::nat), Some 20, Some 30, None, None], p_frontIndex = 0,
               p_size = 3, p_numberOfCapacityIncrements = 1,
               p_capacityIncrementFactor = Finite (3 / 2) \<rparr>"
  have h1: "invar ?d"
    by code_simp
  have h2: "size_of ?d = capacity ?d" by (simp add: size_of_def capacity_def)
  have h3: "increaseCapacityIfNecessary ?d = (Inr (), ?d')"
    by code_simp
  have sn: "getSnapshot ?d = Inr [Some 10, Some 20, Some 30]"
    by code_simp
  have k: "(1::nat) < nat (size_of ?d)" "nat (size_of ?d) \<le> 3"
    "(3::nat) < length (p_cyclicBuffer ?d')"
    by (simp_all add: size_of_def)
  show ?thesis
    unfolding Let_def using h1 h2 h3 sn k growth_relocates[OF h1 h2 h3] by metis
qed

section \<open>The growth trigger\<close>

text \<open>
  C3. A \<^verbatim>\<open>pushBack\<close> or \<^verbatim>\<open>pushFront\<close> on a deque with \<^verbatim>\<open>size < capacity\<close> returns with
  the capacity and the count of capacity increments as they were. On a deque with
  \<^verbatim>\<open>size == capacity\<close> it returns with the count one higher and with the capacity \<open>n\<close>,
  where \<open>n\<close> is the value of \<^verbatim>\<open>Math.ceil(capacity * factor)\<close> as the code computes it (the
  product rounded to binary64, then the ceiling), provided \<open>n\<close> is a length that
  \<^verbatim>\<open>new Array\<close> accepts. For every finite factor there is such a value, and it is
  greater than the capacity. The deque satisfies the invariant of the class.
\<close>

theorem growth_trigger:
  fixes d :: "'a SlimDeque"
  assumes "invar d"
  shows "(size_of d < capacity d \<longrightarrow>
            fst (pushBack d x) = Inr () \<and>
            capacity (snd (pushBack d x)) = capacity d \<and>
            numberOfCapacityIncrements (snd (pushBack d x)) = numberOfCapacityIncrements d \<and>
            fst (pushFront d x) = Inr () \<and>
            capacity (snd (pushFront d x)) = capacity d \<and>
            numberOfCapacityIncrements (snd (pushFront d x)) = numberOfCapacityIncrements d) \<and>
         (size_of d = capacity d \<and>
          newCapacity_of (capacity d) (p_capacityIncrementFactor d) = Finite (of_int n) \<and>
          n \<le> MAX_ARRAY_LENGTH \<longrightarrow>
            fst (pushBack d x) = Inr () \<and>
            capacity (snd (pushBack d x)) = n \<and>
            numberOfCapacityIncrements (snd (pushBack d x)) = numberOfCapacityIncrements d + 1 \<and>
            fst (pushFront d x) = Inr () \<and>
            capacity (snd (pushFront d x)) = n \<and>
            numberOfCapacityIncrements (snd (pushFront d x)) = numberOfCapacityIncrements d + 1) \<and>
         (p_capacityIncrementFactor d = Finite f \<longrightarrow>
            (\<exists>m. newCapacity_of (capacity d) (p_capacityIncrementFactor d) = Finite (of_int m) \<and>
                 capacity d < m))"
proof (intro conjI impI)
  assume "size_of d < capacity d"
  then have g: "increaseCapacityIfNecessary d = (Inr (), d)"
    by (simp add: size_of_def no_growth_needed)
  note p = push_after_growth[OF assms g, of x]
  show "fst (pushBack d x) = Inr ()"
    and "capacity (snd (pushBack d x)) = capacity d"
    and "numberOfCapacityIncrements (snd (pushBack d x)) = numberOfCapacityIncrements d"
    and "fst (pushFront d x) = Inr ()"
    and "capacity (snd (pushFront d x)) = capacity d"
    and "numberOfCapacityIncrements (snd (pushFront d x)) = numberOfCapacityIncrements d"
    using p by (simp_all add: numberOfCapacityIncrements_def)
next
  assume a: "size_of d = capacity d \<and>
          newCapacity_of (capacity d) (p_capacityIncrementFactor d) = Finite (of_int n) \<and>
          n \<le> MAX_ARRAY_LENGTH"
  let ?grown = "d\<lparr> p_frontIndex := 0,
                 p_cyclicBuffer := items d @ replicate (nat n - nat (p_size d)) None,
                 p_numberOfCapacityIncrements := p_numberOfCapacityIncrements d + 1 \<rparr>"
  have s: "p_size d = capacity d" using a by (simp add: size_of_def)
  have g: "increaseCapacityIfNecessary d = (Inr (), ?grown)"
    using a by (intro grow_Finite[OF assms s]) simp_all
  have c1: "1 \<le> capacity d" using assms by (simp add: invar_def)
  have lt: "capacity d < n" using a by (intro grown_capacity_gt[OF assms]) simp
  have "length (p_cyclicBuffer ?grown) = nat (p_size d) + (nat n - nat (p_size d))"
    by (simp add: length_items)
  then have "int (length (p_cyclicBuffer ?grown)) = n"
    using s c1 lt by linarith
  then have cap: "capacity ?grown = n"
    by (simp only: capacity_def)
  note p = push_after_growth[OF assms g, of x]
  show "fst (pushBack d x) = Inr ()"
    and "capacity (snd (pushBack d x)) = n"
    and "numberOfCapacityIncrements (snd (pushBack d x)) = numberOfCapacityIncrements d + 1"
    and "fst (pushFront d x) = Inr ()"
    and "capacity (snd (pushFront d x)) = n"
    and "numberOfCapacityIncrements (snd (pushFront d x)) = numberOfCapacityIncrements d + 1"
    using p cap by (simp_all add: numberOfCapacityIncrements_def)
next
  assume f: "p_capacityIncrementFactor d = Finite f"
  have "validateCapacityIncrementFactor (Finite f) = Inr ()"
    and c: "1 \<le> capacity d" "capacity d \<le> MAX_ARRAY_LENGTH"
    using assms f by (simp_all add: invar_def)
  then have r: "11 / 10 \<le> f" "f \<le> 2" using factor_valid[of "Finite f"] by simp_all
  from newCapacity_of_bounds[OF c r]
  show "\<exists>m. newCapacity_of (capacity d) (p_capacityIncrementFactor d) = Finite (of_int m) \<and>
                 capacity d < m"
    unfolding f by blast
qed

theorem growth_trigger_witness:
  "let d = \<lparr> p_cyclicBuffer = [Some (1::nat), Some 2, Some 3, Some 4, Some 5,
                                Some 6, Some 7, Some 8, Some 9, Some 10],
              p_frontIndex = 0, p_size = 10, p_numberOfCapacityIncrements = 0,
              p_capacityIncrementFactor = MIN_ALLOWED_CAPACITY_INCREMENT_FACTOR \<rparr>;
       e = \<lparr> p_cyclicBuffer = [None, Some (10::nat), Some 20], p_frontIndex = 1, p_size = 2,
              p_numberOfCapacityIncrements = 0, p_capacityIncrementFactor = Finite (3 / 2) \<rparr>
   in invar d \<and> size_of d = capacity d \<and>
      newCapacity_of (capacity d) (p_capacityIncrementFactor d) = Finite (of_int 11) \<and>
      (11::int) \<le> MAX_ARRAY_LENGTH \<and>
      capacity (snd (pushBack d 11)) = 11 \<and>
      numberOfCapacityIncrements (snd (pushBack d 11)) = 1 \<and>
      invar e \<and> size_of e < capacity e \<and>
      capacity (snd (pushFront e 40)) = 3 \<and>
      numberOfCapacityIncrements (snd (pushFront e 40)) = 0 \<and>
      p_capacityIncrementFactor e = Finite (3 / 2) \<and>
      (\<exists>m. newCapacity_of (capacity e) (p_capacityIncrementFactor e) = Finite (of_int m) \<and>
           capacity e < m)"
proof -
  let ?full = "\<lparr> p_cyclicBuffer = [Some (1::nat), Some 2, Some 3, Some 4, Some 5,
                                Some 6, Some 7, Some 8, Some 9, Some 10],
              p_frontIndex = 0, p_size = 10, p_numberOfCapacityIncrements = 0,
              p_capacityIncrementFactor = MIN_ALLOWED_CAPACITY_INCREMENT_FACTOR \<rparr>"
  let ?part = "\<lparr> p_cyclicBuffer = [None, Some (10::nat), Some 20], p_frontIndex = 1, p_size = 2,
              p_numberOfCapacityIncrements = 0, p_capacityIncrementFactor = Finite (3 / 2) \<rparr>"
  have d1: "invar ?full" by code_simp
  have d2: "size_of ?full = capacity ?full \<and>
      newCapacity_of (capacity ?full) (p_capacityIncrementFactor ?full) = Finite (of_int 11) \<and>
      (11::int) \<le> MAX_ARRAY_LENGTH"
    by code_simp
  have e1: "invar ?part" by code_simp
  have e2: "size_of ?part < capacity ?part" "capacity ?part = 3"
    "numberOfCapacityIncrements ?part = 0" "numberOfCapacityIncrements ?full = 0"
    "p_capacityIncrementFactor ?part = Finite (3 / 2)"
    by (simp_all add: size_of_def capacity_def numberOfCapacityIncrements_def)
  show ?thesis
    unfolding Let_def
    using d1 d2 e1 e2 growth_trigger[OF d1, of 11 11 "3 / 2"] growth_trigger[OF e1, of 40 0 "3 / 2"]
    by simp
qed

section \<open>Capacity over time\<close>

lemma constructed_stores:
  fixes d0 :: "'a SlimDeque"
  assumes "SlimDeque_new initialCapacity factor = Inr d0"
  shows "stores d0 []"
  using SlimDeque_new_ok[OF assms] by (simp add: stores_def)

text \<open>
  C5. For every capacity \<open>c \<ge> 1\<close> and every factor \<open>f\<close> in \<open>[1.1, 2]\<close> the new capacity
  that a growth computes, \<^verbatim>\<open>Math.ceil(c * f)\<close> with the product rounded to binary64, is
  strictly greater than \<open>c\<close> (it is an integer up to the greatest array length, and
  greater than every finite number should the product overflow); a growth of the buffer
  therefore leaves the deque with a strictly greater capacity; and between any two
  moments of any sequence of calls on a constructed deque the capacity does not decrease.
\<close>

theorem capacity_never_decreases:
  fixes d d' d0 d1 d2 :: "'a SlimDeque"
  shows "(1 \<le> c \<and> 11 / 10 \<le> f \<and> f \<le> 2 \<longrightarrow>
            js_gt (newCapacity_of c (Finite f)) (Finite (of_int c))) \<and>
         (1 \<le> c \<and> c \<le> MAX_ARRAY_LENGTH \<and> 11 / 10 \<le> f \<and> f \<le> 2 \<longrightarrow>
            (\<exists>n. newCapacity_of c (Finite f) = Finite (of_int n) \<and> c < n)) \<and>
         (invar d \<and> size_of d = capacity d \<and> increaseCapacityIfNecessary d = (Inr u, d') \<longrightarrow>
            capacity d < capacity d') \<and>
         (SlimDeque_new initialCapacity factor = Inr d0 \<and> run d0 ops1 = Some (rs1, d1) \<and>
          run d1 ops2 = Some (rs2, d2) \<longrightarrow>
            capacity d0 \<le> capacity d1 \<and> capacity d1 \<le> capacity d2)"
proof (intro conjI impI)
  assume a: "1 \<le> c \<and> 11 / 10 \<le> f \<and> f \<le> 2"
  then show "js_gt (newCapacity_of c (Finite f)) (Finite (of_int c))"
    by (intro newCapacity_of_gt) simp_all
next
  assume a: "1 \<le> c \<and> c \<le> MAX_ARRAY_LENGTH \<and> 11 / 10 \<le> f \<and> f \<le> 2"
  then have "\<exists>n. newCapacity_of c (Finite f) = Finite (of_int n) \<and> c < n \<and> n \<le> 2 * c + 1"
    by (intro newCapacity_of_bounds) simp_all
  then show "\<exists>n. newCapacity_of c (Finite f) = Finite (of_int n) \<and> c < n" by blast
next
  assume a: "invar d \<and> size_of d = capacity d \<and> increaseCapacityIfNecessary d = (Inr u, d')"
  then have s: "p_size d = capacity d" by (simp add: size_of_def)
  from a have g: "increaseCapacityIfNecessary d = (Inr u, d')" and i: "invar d" by simp_all
  have "p_size d' = p_size d \<and> p_size d' < capacity d'" using grow_ok[OF i g] by simp
  then show "capacity d < capacity d'" using s by simp
next
  assume a: "SlimDeque_new initialCapacity factor = Inr d0 \<and> run d0 ops1 = Some (rs1, d1) \<and>
          run d1 ops2 = Some (rs2, d2)"
  then have s0: "stores d0 []" by (intro constructed_stores[of initialCapacity factor]) simp
  from run_stores[OF s0, of ops1] a obtain ys where s1: "stores d1 ys" "capacity d0 \<le> capacity d1"
    by auto
  from run_stores[OF s1(1), of ops2] a have "capacity d1 \<le> capacity d2" by auto
  then show "capacity d0 \<le> capacity d1" and "capacity d1 \<le> capacity d2" using s1 by simp_all
qed

theorem capacity_never_decreases_witness:
  "let d = \<lparr> p_cyclicBuffer = [Some (10::nat)], p_frontIndex = 0, p_size = 1,
              p_numberOfCapacityIncrements = 0,
              p_capacityIncrementFactor = MIN_ALLOWED_CAPACITY_INCREMENT_FACTOR \<rparr>;
       d' = \<lparr> p_cyclicBuffer = [Some (10::nat), None], p_frontIndex = 0, p_size = 1,
              p_numberOfCapacityIncrements = 1,
              p_capacityIncrementFactor = MIN_ALLOWED_CAPACITY_INCREMENT_FACTOR \<rparr>;
       d0 = \<lparr> p_cyclicBuffer = [None], p_frontIndex = 0, p_size = 0,
              p_numberOfCapacityIncrements = 0,
              p_capacityIncrementFactor = MIN_ALLOWED_CAPACITY_INCREMENT_FACTOR \<rparr>;
       d2 = \<lparr> p_cyclicBuffer = [None, Some 20], p_frontIndex = 1, p_size = 1,
              p_numberOfCapacityIncrements = 1,
              p_capacityIncrementFactor = MIN_ALLOWED_CAPACITY_INCREMENT_FACTOR \<rparr>;
       f = 2476979795053773 / 2251799813685248
   in MIN_ALLOWED_CAPACITY_INCREMENT_FACTOR = Finite f \<and>
      (1::int) \<le> 1 \<and> (1::int) \<le> 10 \<and> (10::int) \<le> MAX_ARRAY_LENGTH \<and>
      11 / 10 \<le> f \<and> f \<le> 2 \<and>
      newCapacity_of 1 (Finite f) = Finite 2 \<and>
      newCapacity_of 10 (Finite f) = Finite 11 \<and>
      newCapacity_of 50 (Finite f) = Finite 56 \<and>
      js_gt (newCapacity_of 1 (Finite f)) (Finite (of_int 1)) \<and>
      (\<exists>n. newCapacity_of 10 (Finite f) = Finite (of_int n) \<and> 10 < n) \<and>
      invar d \<and> size_of d = capacity d \<and> increaseCapacityIfNecessary d = (Inr (), d') \<and>
      capacity d < capacity d' \<and>
      SlimDeque_new (Finite 1) MIN_ALLOWED_CAPACITY_INCREMENT_FACTOR = Inr d0 \<and>
      run d0 [PushBack 10] = Some ([Inr None], d) \<and>
      run d [PushBack 20, PopFront] = Some ([Inr None, Inr (Some 10)], d2) \<and>
      capacity d0 \<le> capacity d \<and> capacity d \<le> capacity d2"
proof -
  let ?full = "\<lparr> p_cyclicBuffer = [Some (10::nat)], p_frontIndex = 0, p_size = 1,
              p_numberOfCapacityIncrements = 0,
              p_capacityIncrementFactor = MIN_ALLOWED_CAPACITY_INCREMENT_FACTOR \<rparr>"
  let ?grown = "\<lparr> p_cyclicBuffer = [Some (10::nat), None], p_frontIndex = 0, p_size = 1,
              p_numberOfCapacityIncrements = 1,
              p_capacityIncrementFactor = MIN_ALLOWED_CAPACITY_INCREMENT_FACTOR \<rparr>"
  let ?fresh = "\<lparr> p_cyclicBuffer = [None :: nat option], p_frontIndex = 0, p_size = 0,
              p_numberOfCapacityIncrements = 0,
              p_capacityIncrementFactor = MIN_ALLOWED_CAPACITY_INCREMENT_FACTOR \<rparr>"
  let ?last = "\<lparr> p_cyclicBuffer = [None, Some (20::nat)], p_frontIndex = 1, p_size = 1,
              p_numberOfCapacityIncrements = 1,
              p_capacityIncrementFactor = MIN_ALLOWED_CAPACITY_INCREMENT_FACTOR \<rparr>"
  let ?f = "2476979795053773 / 2251799813685248 :: real"
  have a1: "(1::int) \<le> 1 \<and> 11 / 10 \<le> ?f \<and> ?f \<le> 2" by simp
  have a2: "(1::int) \<le> 10" "(10::int) \<le> MAX_ARRAY_LENGTH" by (simp_all add: MAX_ARRAY_LENGTH_def)
  have n: "newCapacity_of 1 (Finite ?f) = Finite 2" "newCapacity_of 10 (Finite ?f) = Finite 11"
    "newCapacity_of 50 (Finite ?f) = Finite 56"
    by code_simp+
  have b: "invar ?full \<and> size_of ?full = capacity ?full \<and>
      increaseCapacityIfNecessary ?full = (Inr (), ?grown)"
    by code_simp
  have c: "SlimDeque_new (Finite 1) MIN_ALLOWED_CAPACITY_INCREMENT_FACTOR = Inr ?fresh \<and>
      run ?fresh [PushBack 10] = Some ([Inr None], ?full) \<and>
      run ?full [PushBack 20, PopFront] = Some ([Inr None, Inr (Some 10)], ?last)"
    by code_simp
  note t1 = capacity_never_decreases[of 1 ?f ?full "()" ?grown
      "Finite 1" MIN_ALLOWED_CAPACITY_INCREMENT_FACTOR ?fresh
      "[PushBack 10]" "[Inr None]" ?full "[PushBack 20, PopFront]" "[Inr None, Inr (Some 10)]" ?last]
  note t2 = capacity_never_decreases[of 10 ?f ?full "()" ?grown
      "Finite 1" MIN_ALLOWED_CAPACITY_INCREMENT_FACTOR ?fresh
      "[PushBack 10]" "[Inr None]" ?full "[PushBack 20, PopFront]" "[Inr None, Inr (Some 10)]" ?last]
  have g1: "js_gt (newCapacity_of 1 (Finite ?f)) (Finite (of_int 1))
      \<and> capacity ?full < capacity ?grown
      \<and> capacity ?fresh \<le> capacity ?full \<and> capacity ?full \<le> capacity ?last"
    using t1 a1 b c by blast
  have g2: "\<exists>n. newCapacity_of 10 (Finite ?f) = Finite (of_int n) \<and> 10 < n"
    using t2 a1 a2 by blast
  show ?thesis
    unfolding Let_def using MIN_value a1 a2 n b c g1 g2 by blast
qed

section \<open>Order and bounds over sequences of calls\<close>

lemma apply_op_no_RangeError:
  fixes d :: "'a SlimDeque"
  assumes "invar d" "p_capacityIncrementFactor d = Finite f"
    "2 * p_size d \<le> MAX_ARRAY_LENGTH" "apply_op d op = Some (r, d')"
  shows "r \<noteq> Inl RangeError"
proof -
  have push: "fst (pushBack d x) = Inr () \<and> fst (pushFront d x) = Inr ()" for x
  proof (cases "p_size d < capacity d")
    case True
    then show ?thesis by (intro push_succeeds) (simp add: no_growth_needed)
  next
    case False
    then have s: "p_size d = capacity d" using assms(1) by (simp add: invar_def)
    have "validateCapacityIncrementFactor (Finite f) = Inr ()"
      and c: "1 \<le> capacity d" "capacity d \<le> MAX_ARRAY_LENGTH"
      using assms(1,2) by (simp_all add: invar_def)
    then have r: "11 / 10 \<le> f" "f \<le> 2" using factor_valid[of "Finite f"] by simp_all
    from newCapacity_of_bounds[OF c r] obtain n where
      n: "newCapacity_of (capacity d) (Finite f) = Finite (of_int n)" "n \<le> 2 * capacity d + 1"
      by blast
    have "2 * capacity d \<le> 4294967295" using assms(3) s by (simp add: MAX_ARRAY_LENGTH_def)
    then have "2 * capacity d + 1 \<le> 4294967295" by presburger
    then have "n \<le> MAX_ARRAY_LENGTH" using n(2) by (simp add: MAX_ARRAY_LENGTH_def)
    then show ?thesis
      using n(1) by (intro push_succeeds grow_succeeds[OF assms(1), of n]) (simp_all add: assms(2))
  qed
  show ?thesis
  proof (cases op)
    case (PushFront x)
    then show ?thesis using assms(4) push[of x] by (cases "pushFront d x") auto
  next
    case (PushBack x)
    then show ?thesis using assms(4) push[of x] by (cases "pushBack d x") auto
  next
    case PopFront
    then show ?thesis using assms(4) by (auto simp: popFront_def Let_def split: if_splits)
  next
    case PopBack
    then show ?thesis using assms(4) by (auto simp: popBack_def Let_def split: if_splits)
  next
    case Clear
    then show ?thesis using assms(4) by auto
  qed
qed

lemma run_no_RangeError:
  fixes d :: "'a SlimDeque"
  assumes "stores d xs" "p_capacityIncrementFactor d = Finite f"
    "2 * (p_size d + int (length ops)) \<le> MAX_ARRAY_LENGTH" "run d ops = Some (rs, d')"
  shows "Inl RangeError \<notin> set rs"
  using assms
proof (induction ops arbitrary: d xs rs)
  case Nil
  then show ?case by simp
next
  case (Cons op ops)
  from apply_op_step[OF Cons.prems(1), of op] obtain r d1 ys where
    st: "apply_op d op = Some (r, d1)" "stores d1 ys" "p_size d1 \<le> p_size d + 1"
      "p_capacityIncrementFactor d1 = p_capacityIncrementFactor d"
    by blast
  obtain rs1 where rs: "run d1 ops = Some (rs1, d')" "rs = r # rs1"
    using Cons.prems(4) st(1) by (auto split: option.splits)
  have "invar d" using Cons.prems(1) by (simp add: stores_def)
  moreover have "0 \<le> int (length ops)" by simp
  then have "2 * p_size d \<le> MAX_ARRAY_LENGTH" using Cons.prems(3) by simp
  ultimately have "r \<noteq> Inl RangeError"
    using Cons.prems(2) st(1) by (intro apply_op_no_RangeError)
  moreover have "Inl RangeError \<notin> set rs1"
    using st Cons.prems rs(1) by (intro Cons.IH[OF st(2)]) auto
  ultimately show ?case using rs by auto
qed

text \<open>
  C1. Take a constructed deque and make any sequence of calls of \<^verbatim>\<open>pushFront\<close>,
  \<^verbatim>\<open>pushBack\<close>, \<^verbatim>\<open>popFront\<close>, \<^verbatim>\<open>popBack\<close> (and \<^verbatim>\<open>clear\<close>). The calls all return or
  throw, and if no push was refused by the allocation of a larger buffer, then
  \<^verbatim>\<open>getSnapshot\<close> returns an array whose length is the size and whose items are, front to
  back, those of the reference deque after the same calls. No push is refused when the
  factor is a finite number and twice the number of calls is a length that
  \<^verbatim>\<open>new Array\<close> accepts.
\<close>

theorem snapshot_matches_reference:
  fixes d0 :: "'a SlimDeque"
  assumes "SlimDeque_new initialCapacity factor = Inr d0"
  shows "\<exists>rs d. run d0 ops = Some (rs, d) \<and>
           (Inl RangeError \<notin> set rs \<longrightarrow>
              getSnapshot d = Inr (map Some (ref_run [] ops)) \<and>
              int (length (ref_run [] ops)) = size_of d) \<and>
           ((\<exists>f. factor = Finite f) \<and> 2 * int (length ops) \<le> MAX_ARRAY_LENGTH \<longrightarrow>
              Inl RangeError \<notin> set rs)"
proof -
  note new = SlimDeque_new_ok[OF assms]
  have s0: "stores d0 []" by (rule constructed_stores[OF assms])
  from run_stores[OF s0, of ops] obtain rs d ys where
    r: "run d0 ops = Some (rs, d)" "stores d ys" "Inl RangeError \<notin> set rs \<longrightarrow> ys = ref_run [] ops"
    by blast
  have "getSnapshot d = Inr (map Some ys)"
    using r(2) by (simp add: stores_def getSnapshot_items)
  moreover have "int (length ys) = size_of d"
    using stores_length[OF r(2)] by (simp add: size_of_def)
  moreover have "Inl RangeError \<notin> set rs"
    if "(\<exists>f. factor = Finite f) \<and> 2 * int (length ops) \<le> MAX_ARRAY_LENGTH"
  proof -
    from that obtain f where "p_capacityIncrementFactor d0 = Finite f" using new by auto
    then show ?thesis using that new r(1) by (intro run_no_RangeError[OF s0, of f ops rs d]) simp_all
  qed
  ultimately show ?thesis using r by auto
qed

theorem snapshot_matches_reference_witness:
  "let d0 = \<lparr> p_cyclicBuffer = [None, None], p_frontIndex = 0, p_size = 0,
               p_numberOfCapacityIncrements = 0, p_capacityIncrementFactor = Finite (3 / 2) \<rparr>;
       ops = [PushFront (1::nat), PushFront 2, PushBack 3, PopFront, PushBack 4, PushFront 5, PopBack]
   in SlimDeque_new (Finite 2) (Finite (3 / 2)) = Inr d0 \<and>
      (\<exists>rs d. run d0 ops = Some (rs, d) \<and> Inl RangeError \<notin> set rs \<and>
         (\<exists>f. Finite (3 / 2) = Finite f) \<and> 2 * int (length ops) \<le> MAX_ARRAY_LENGTH \<and>
         getSnapshot d = Inr (map Some (ref_run [] ops)) \<and>
         getSnapshot d = Inr [Some 5, Some 1, Some 3])"
proof -
  let ?fresh = "\<lparr> p_cyclicBuffer = [None :: nat option, None], p_frontIndex = 0, p_size = 0,
               p_numberOfCapacityIncrements = 0, p_capacityIncrementFactor = Finite (3 / 2) \<rparr>"
  let ?ops = "[PushFront (1::nat), PushFront 2, PushBack 3, PopFront, PushBack 4, PushFront 5, PopBack]"
  have h: "SlimDeque_new (Finite 2) (Finite (3 / 2)) = Inr ?fresh" by code_simp
  have "\<exists>f. Finite (3 / 2) = Finite f" by blast
  moreover have "2 * int (length ?ops) \<le> MAX_ARRAY_LENGTH" by (simp add: MAX_ARRAY_LENGTH_def)
  ultimately have g: "(\<exists>f. Finite (3 / 2) = Finite f) \<and> 2 * int (length ?ops) \<le> MAX_ARRAY_LENGTH"
    by (rule conjI)
  have v: "map Some (ref_run [] ?ops) = [Some 5, Some 1, Some 3]" by (simp add: ref_run_def)
  from snapshot_matches_reference[OF h, of ?ops] g v h show ?thesis
    unfolding Let_def by metis
qed

text \<open>
  C2. After every call of every sequence of calls on a constructed deque, the size is at
  least 0 and at most the capacity, and the front index is at least 0 and less than the
  capacity.
\<close>

theorem size_and_front_index_in_range:
  fixes d0 :: "'a SlimDeque"
  assumes "SlimDeque_new initialCapacity factor = Inr d0"
  shows "\<forall>n \<le> length ops. \<exists>rs d. run d0 (take n ops) = Some (rs, d) \<and>
            0 \<le> size_of d \<and> size_of d \<le> capacity d \<and>
            0 \<le> p_frontIndex d \<and> p_frontIndex d < capacity d"
proof (intro allI impI)
  fix n assume "n \<le> length ops"
  have s0: "stores d0 []" by (rule constructed_stores[OF assms])
  from run_stores[OF s0, of "take n ops"] obtain rs d ys where
    r: "run d0 (take n ops) = Some (rs, d)" "stores d ys"
    by blast
  then have "invar d" by (simp add: stores_def)
  then have "0 \<le> size_of d \<and> size_of d \<le> capacity d \<and>
            0 \<le> p_frontIndex d \<and> p_frontIndex d < capacity d"
    by (simp add: invar_def size_of_def)
  then show "\<exists>rs d. run d0 (take n ops) = Some (rs, d) \<and>
            0 \<le> size_of d \<and> size_of d \<le> capacity d \<and>
            0 \<le> p_frontIndex d \<and> p_frontIndex d < capacity d"
    using r(1) by blast
qed

theorem size_and_front_index_in_range_witness:
  "let d0 = \<lparr> p_cyclicBuffer = [None, None], p_frontIndex = 0, p_size = 0,
               p_numberOfCapacityIncrements = 0, p_capacityIncrementFactor = Finite (3 / 2) \<rparr>;
       ops = [PushFront (1::nat), PushFront 2, PushBack 3, PopFront, Clear, PopBack]
   in SlimDeque_new (Finite 2) (Finite (3 / 2)) = Inr d0 \<and> (3::nat) \<le> length ops \<and>
      (\<exists>rs d. run d0 (take 3 ops) = Some (rs, d) \<and>
            0 \<le> size_of d \<and> size_of d \<le> capacity d \<and>
            0 \<le> p_frontIndex d \<and> p_frontIndex d < capacity d)"
proof -
  let ?fresh = "\<lparr> p_cyclicBuffer = [None :: nat option, None], p_frontIndex = 0, p_size = 0,
               p_numberOfCapacityIncrements = 0, p_capacityIncrementFactor = Finite (3 / 2) \<rparr>"
  let ?ops = "[PushFront (1::nat), PushFront 2, PushBack 3, PopFront, Clear, PopBack]"
  have h: "SlimDeque_new (Finite 2) (Finite (3 / 2)) = Inr ?fresh" by code_simp
  have l: "(3::nat) \<le> length ?ops" by simp
  from size_and_front_index_in_range[OF h, of ?ops] l h show ?thesis
    unfolding Let_def by blast
qed

section \<open>Clearing, and the round trip\<close>

text \<open>
  C8. On every deque that satisfies the invariant of the class, \<^verbatim>\<open>clear\<close> returns, with
  size 0 and front index 0, with the capacity and the count of capacity increments as
  they were, and with an empty snapshot; the deque it leaves is, field by field, the one
  that as many calls of \<^verbatim>\<open>popFront\<close> as there are items, followed by a reset of the front
  index, leave.
\<close>

theorem clear_empties_and_resets:
  fixes d :: "'a SlimDeque"
  assumes "invar d"
  shows "\<exists>d'. clear d = Some d' \<and> d' = clear_spec d \<and>
           size_of d' = 0 \<and> isEmpty d' \<and> p_frontIndex d' = 0 \<and>
           capacity d' = capacity d \<and>
           numberOfCapacityIncrements d' = numberOfCapacityIncrements d \<and>
           getSnapshot d' = Inr []"
proof -
  note c = clear_ok[OF assms]
  have "getSnapshot (clear_spec d) = Inr []" using c by (simp add: getSnapshot_items)
  then show ?thesis
    using c by (simp add: size_of_def isEmpty_def numberOfCapacityIncrements_def)
qed

theorem clear_empties_and_resets_witness:
  "let d = \<lparr> p_cyclicBuffer = [Some (30::nat), None, Some 10, Some 20], p_frontIndex = 2,
              p_size = 3, p_numberOfCapacityIncrements = 1,
              p_capacityIncrementFactor = Finite (3 / 2) \<rparr>
   in invar d \<and>
      clear d = Some \<lparr> p_cyclicBuffer = [None, None, None, None], p_frontIndex = 0,
              p_size = 0, p_numberOfCapacityIncrements = 1,
              p_capacityIncrementFactor = Finite (3 / 2) \<rparr> \<and>
      (\<exists>d'. clear d = Some d' \<and> d' = clear_spec d \<and>
           size_of d' = 0 \<and> isEmpty d' \<and> p_frontIndex d' = 0 \<and>
           capacity d' = capacity d \<and>
           numberOfCapacityIncrements d' = numberOfCapacityIncrements d \<and>
           getSnapshot d' = Inr [])"
proof -
  let ?full = "\<lparr> p_cyclicBuffer = [Some (30::nat), None, Some 10, Some 20], p_frontIndex = 2,
              p_size = 3, p_numberOfCapacityIncrements = 1,
              p_capacityIncrementFactor = Finite (3 / 2) \<rparr>"
  have h: "invar ?full" by code_simp
  have v: "clear ?full = Some \<lparr> p_cyclicBuffer = [None, None, None, None], p_frontIndex = 0,
              p_size = 0, p_numberOfCapacityIncrements = 1,
              p_capacityIncrementFactor = Finite (3 / 2) \<rparr>"
    by code_simp
  from clear_empties_and_resets[OF h] h v show ?thesis
    unfolding Let_def by blast
qed

lemma length_ref_run_pushes:
  assumes "\<forall>op \<in> set ops. \<exists>x. op = PushFront x \<or> op = PushBack x"
  shows "length (ref_run xs ops) = length xs + length ops"
  using assms unfolding ref_run_def
  by (induction ops arbitrary: xs) auto

lemma length_ref_run_pops:
  assumes "\<forall>op \<in> set ops. op = PopFront \<or> op = PopBack"
  shows "length (ref_run xs ops) = length xs - length ops"
  using assms unfolding ref_run_def
  by (induction ops arbitrary: xs) auto

lemma ref_run_append: "ref_run xs (ops1 @ ops2) = ref_run (ref_run xs ops1) ops2"
  by (simp add: ref_run_def)

text \<open>
  C9. Start from an empty deque, push \<open>N\<close> items by any mix of \<^verbatim>\<open>pushFront\<close> and
  \<^verbatim>\<open>pushBack\<close> (none of them refused by the allocation of a larger buffer), then make
  \<open>N\<close> calls in any mix of \<^verbatim>\<open>popFront\<close> and \<^verbatim>\<open>popBack\<close>: the deque is empty again, its
  size is 0, and a \<^verbatim>\<open>clear\<close> after that returns with the front index 0. The round trip
  by itself does not bring the front index back to 0: after \<^verbatim>\<open>pushBack(1)\<close> and
  \<^verbatim>\<open>popFront()\<close> on a new deque of capacity 4 the deque is empty and the front index is 1.
\<close>

theorem push_pop_round_trip:
  fixes d :: "'a SlimDeque"
  shows "(stores d [] \<and>
          (\<forall>op \<in> set pushes. \<exists>x. op = PushFront x \<or> op = PushBack x) \<and>
          (\<forall>op \<in> set pops. op = PopFront \<or> op = PopBack) \<and>
          length pushes = length pops \<and>
          run d (pushes @ pops) = Some (rs, d') \<and> Inl RangeError \<notin> set rs \<longrightarrow>
            isEmpty d' \<and> size_of d' = 0 \<and>
            (\<exists>d''. clear d' = Some d'' \<and> p_frontIndex d'' = 0 \<and> isEmpty d'')) \<and>
         (\<exists>e rs' e'. SlimDeque_new (Finite 4) (Finite 2) = Inr (e :: nat SlimDeque) \<and>
            run e [PushBack 1, PopFront] = Some (rs', e') \<and> Inl RangeError \<notin> set rs' \<and>
            isEmpty e' \<and> p_frontIndex e' = 1)"
proof (intro conjI impI)
  assume a: "stores d [] \<and>
          (\<forall>op \<in> set pushes. \<exists>x. op = PushFront x \<or> op = PushBack x) \<and>
          (\<forall>op \<in> set pops. op = PopFront \<or> op = PopBack) \<and>
          length pushes = length pops \<and>
          run d (pushes @ pops) = Some (rs, d') \<and> Inl RangeError \<notin> set rs"
  then have s0: "stores d []" by simp
  from run_stores[OF s0, of "pushes @ pops"] a
  have st: "stores d' (ref_run [] (pushes @ pops))" by auto
  have "length (ref_run [] (pushes @ pops)) = 0"
    using a by (simp add: ref_run_append length_ref_run_pops length_ref_run_pushes)
  then have z: "p_size d' = 0" using stores_length[OF st] by simp
  then show "isEmpty d'" and "size_of d' = 0" by (simp_all add: isEmpty_def size_of_def)
  have "invar d'" using st by (simp add: stores_def)
  from clear_ok[OF this]
  show "\<exists>d''. clear d' = Some d'' \<and> p_frontIndex d'' = 0 \<and> isEmpty d''"
    by (simp add: isEmpty_def)
next
  let ?fresh = "\<lparr> p_cyclicBuffer = [None :: nat option, None, None, None], p_frontIndex = 0,
                  p_size = 0, p_numberOfCapacityIncrements = 0,
                  p_capacityIncrementFactor = Finite 2 \<rparr>"
  let ?last = "\<lparr> p_cyclicBuffer = [None :: nat option, None, None, None], p_frontIndex = 1,
                  p_size = 0, p_numberOfCapacityIncrements = 0,
                  p_capacityIncrementFactor = Finite 2 \<rparr>"
  have "SlimDeque_new (Finite 4) (Finite 2) = Inr ?fresh" by code_simp
  moreover have "run ?fresh [PushBack 1, PopFront] = Some ([Inr None, Inr (Some 1)], ?last)"
    by code_simp
  moreover have "Inl RangeError \<notin> set [Inr None, Inr (Some (1::nat))]" by simp
  moreover have "isEmpty ?last \<and> p_frontIndex ?last = 1" by (simp add: isEmpty_def)
  ultimately show "\<exists>e rs' e'. SlimDeque_new (Finite 4) (Finite 2) = Inr (e :: nat SlimDeque) \<and>
            run e [PushBack 1, PopFront] = Some (rs', e') \<and> Inl RangeError \<notin> set rs' \<and>
            isEmpty e' \<and> p_frontIndex e' = 1"
    by blast
qed

theorem push_pop_round_trip_witness:
  "let d = \<lparr> p_cyclicBuffer = [None :: nat option, None], p_frontIndex = 0, p_size = 0,
              p_numberOfCapacityIncrements = 0, p_capacityIncrementFactor = Finite (3 / 2) \<rparr>;
       pushes = [PushFront 1, PushBack 2, PushFront 3];
       pops = [PopBack, PopFront, PopFront];
       rs = [Inr None, Inr None, Inr None, Inr (Some 2), Inr (Some 3), Inr (Some 1)];
       d' = \<lparr> p_cyclicBuffer = [None, None, None], p_frontIndex = 1, p_size = 0,
              p_numberOfCapacityIncrements = 1, p_capacityIncrementFactor = Finite (3 / 2) \<rparr>
   in stores d [] \<and>
      (\<forall>op \<in> set pushes. \<exists>x. op = PushFront x \<or> op = PushBack x) \<and>
      (\<forall>op \<in> set pops. op = PopFront \<or> op = PopBack) \<and>
      length pushes = length pops \<and>
      run d (pushes @ pops) = Some (rs, d') \<and> Inl RangeError \<notin> set rs \<and>
      isEmpty d' \<and> size_of d' = 0 \<and>
      (\<exists>d''. clear d' = Some d'' \<and> p_frontIndex d'' = 0 \<and> isEmpty d'')"
proof -
  let ?fresh = "\<lparr> p_cyclicBuffer = [None :: nat option, None], p_frontIndex = 0, p_size = 0,
              p_numberOfCapacityIncrements = 0, p_capacityIncrementFactor = Finite (3 / 2) \<rparr>"
  let ?pushes = "[PushFront (1::nat), PushBack 2, PushFront 3]"
  let ?pops = "[PopBack :: nat operation, PopFront, PopFront]"
  let ?rs = "[Inr None, Inr None, Inr None, Inr (Some 2), Inr (Some 3), Inr (Some (1::nat))]
               :: (error + nat option) list"
  let ?last = "\<lparr> p_cyclicBuffer = [None :: nat option, None, None], p_frontIndex = 1, p_size = 0,
              p_numberOfCapacityIncrements = 1, p_capacityIncrementFactor = Finite (3 / 2) \<rparr>"
  have h1: "stores ?fresh []" by code_simp
  have h2: "\<forall>op \<in> set ?pushes. \<exists>x. op = PushFront x \<or> op = PushBack x" by simp
  have h3: "\<forall>op \<in> set ?pops. op = PopFront \<or> op = PopBack" by simp
  have h4: "length ?pushes = length ?pops" by simp
  have h5: "run ?fresh (?pushes @ ?pops) = Some (?rs, ?last)" by code_simp
  have h6: "Inl RangeError \<notin> set ?rs" by simp
  from push_pop_round_trip[of ?fresh ?pushes ?pops ?rs ?last] h1 h2 h3 h4 h5 h6
  show ?thesis
    unfolding Let_def by blast
qed

section \<open>The constructor\<close>

lemma isNaturalNumber_Finite:
  "isNaturalNumber (Finite c) \<longleftrightarrow> c = of_int \<lfloor>c\<rfloor> \<and> 1 \<le> c"
  by (auto simp: isNaturalNumber_def js_ge_def)

lemma constructor_rejects_finite_iff:
  "(SlimDeque_new (Finite c) (Finite f) :: error + 'a SlimDeque) = Inl InvalidArgument \<longleftrightarrow>
     \<not> (c = of_int \<lfloor>c\<rfloor> \<and> 1 \<le> c) \<or>
     f < 2476979795053773 / 2251799813685248 \<or> 2 < f"
proof -
  have "validateCapacityIncrementFactor (Finite f) = Inr () \<longleftrightarrow>
      \<not> (f < 2476979795053773 / 2251799813685248 \<or> 2 < f)"
    by (auto simp: factor_cases)
  moreover have "validateCapacityIncrementFactor (Finite f) = Inl InvalidArgument
      \<or> validateCapacityIncrementFactor (Finite f) = Inr ()"
    by (simp add: validateCapacityIncrementFactor_def)
  moreover have "new_Array (Finite c) \<noteq> (Inl InvalidArgument :: error + 'a option list)"
    by simp
  ultimately show ?thesis
    unfolding SlimDeque_new_def isNaturalNumber_Finite
    by (auto split: sum.splits simp del: new_Array.simps)
qed

lemma constructor_result:
  assumes "1 \<le> n" "n \<le> MAX_ARRAY_LENGTH"
    "2476979795053773 / 2251799813685248 \<le> f" "f \<le> 2"
  shows "SlimDeque_new (Finite (of_int n)) (Finite f) =
           Inr \<lparr> p_cyclicBuffer = replicate (nat n) None, p_frontIndex = 0, p_size = 0,
                 p_numberOfCapacityIncrements = 0, p_capacityIncrementFactor = Finite f \<rparr>"
proof -
  have "validateCapacityIncrementFactor (Finite f) = Inr ()"
    using assms by (simp add: factor_cases)
  then show ?thesis
    using assms by (simp add: SlimDeque_new_def isNaturalNumber_of_int)
qed

text \<open>
  C7. The constructor is meant to throw for every factor outside \<open>[1.1, 2]\<close>. The factor
  \<^verbatim>\<open>NaN\<close> is outside, yet both comparisons of the check are false for it, and
  \<^verbatim>\<open>new SlimDeque(4, NaN)\<close> returns a deque. Such a deque throws the \<^verbatim>\<open>RangeError\<close> of
  \<^verbatim>\<open>new Array(NaN)\<close> at the first push that needs a larger buffer. The capacity
  \<^verbatim>\<open>Infinity\<close> passes \<^verbatim>\<open>isNaturalNumber\<close> too, and the construction stops only at
  \<^verbatim>\<open>new Array(Infinity)\<close>.
\<close>

theorem constructor_accepts_NaN_factor:
  "validateCapacityIncrementFactor NaN = Inr () \<and>
   (SlimDeque_new (Finite 4) NaN :: error + nat SlimDeque) =
      Inr \<lparr> p_cyclicBuffer = [None, None, None, None], p_frontIndex = 0, p_size = 0,
            p_numberOfCapacityIncrements = 0, p_capacityIncrementFactor = NaN \<rparr> \<and>
   run \<lparr> p_cyclicBuffer = [None :: nat option], p_frontIndex = 0, p_size = 0,
         p_numberOfCapacityIncrements = 0, p_capacityIncrementFactor = NaN \<rparr>
       [PushBack 1, PushBack 2] =
      Some ([Inr None, Inl RangeError],
            \<lparr> p_cyclicBuffer = [Some 1], p_frontIndex = 0, p_size = 1,
              p_numberOfCapacityIncrements = 0, p_capacityIncrementFactor = NaN \<rparr>) \<and>
   isNaturalNumber PosInfinity \<and>
   (SlimDeque_new PosInfinity (Finite 2) :: error + nat SlimDeque) = Inl RangeError"
  by code_simp

end
